theory Spec2Isabelle
  imports Complex_Main
begin

section \<open>Text\<close>

text \<open>
  A Python \<open>str\<close> is modelled as a \<^typ>\<open>string\<close>: one \<^typ>\<open>char\<close> stands for one code
  point in the range U+0000..U+00FF. Within that range lower-casing maps one code point to
  one code point: the letters \<open>A-Z\<close> and \<open>U+00C0..U+00DE\<close> (the multiplication sign \<open>U+00D7\<close>
  apart) move up by 32 and every other code point stays.
\<close>

abbreviation nl :: char where
  "nl \<equiv> CHR 0x0A"

abbreviation backslash :: char where
  "backslash \<equiv> CHR 0x5C"

definition unicode_tolower :: "char \<Rightarrow> char" where
  "unicode_tolower c =
     (let n = (of_char c :: nat)
      in if (65 \<le> n \<and> n \<le> 90) \<or> (192 \<le> n \<and> n \<le> 222 \<and> n \<noteq> 215)
         then char_of (n + 32) else c)"

text \<open>\<open>str.lower()\<close> and \<open>str.endswith(suffix)\<close>.\<close>

definition lower :: "string \<Rightarrow> string" where
  "lower s = map unicode_tolower s"

definition endswith :: "string \<Rightarrow> string \<Rightarrow> bool" where
  "endswith s suffix =
     (length suffix \<le> length s \<and> drop (length s - length suffix) s = suffix)"

text \<open>\<open>sep.join(lines)\<close> with \<open>sep\<close> the newline.\<close>

fun join_nl :: "string list \<Rightarrow> string" where
  "join_nl [] = []"
| "join_nl [l] = l"
| "join_nl (l # m # ls) = l @ nl # join_nl (m # ls)"

section \<open>github\_helpers.py\<close>

subsection \<open>Exceptions\<close>

text \<open>
  The exceptions that leave the functions of this module: the \<open>ValueError\<close> that
  \<open>safe_replace_between_tags\<close> raises, with its message; the \<open>re.error\<close> of a replacement
  template that cannot be parsed; and the \<open>TypeError\<close> of a \<open>for\<close> clause over an object
  that is not iterable.
\<close>

datatype error =
  ValueError string
| TemplateError
| TypeError

subsection \<open>list\_text\_files\_in\_folder\<close>

text \<open>
  A \<open>ContentFile\<close> of the repository client, with the attributes the code reads. The call
  \<open>repo.get_contents(folder_path)\<close> is the repository's \<open>get_contents\<close> field. It raises
  (\<open>Inl\<close>, with the exception's text), or it returns (\<open>Inr\<close>) what the client returns: the
  list of the entries for a path that names a folder, and one \<open>ContentFile\<close>, not in a list,
  for a path that names a file.
\<close>

record content_file =
  cf_type :: string
  cf_name :: string
  cf_path :: string

datatype contents =
  Entries "content_file list"
| SingleFile content_file

record repository =
  get_contents :: "string \<Rightarrow> string + contents"

text \<open>
  Only the call of \<open>get_contents\<close> is inside the \<open>try\<close>. The comprehension that follows
  iterates over what was returned: over the entries of a list, and a single \<open>ContentFile\<close>
  is not iterable, so that the \<open>TypeError\<close> of the \<open>for\<close> clause leaves the function.
\<close>

definition list_text_files_in_folder ::
  "repository \<Rightarrow> string \<Rightarrow> error + content_file list" where
  "list_text_files_in_folder repo folder_path =
     (case get_contents repo folder_path of
        Inl e \<Rightarrow> Inr []
      | Inr (Entries contents) \<Rightarrow>
          Inr (filter (\<lambda>c. cf_type c = ''file'' \<and> endswith (lower (cf_name c)) ''.txt'')
                 contents)
      | Inr (SingleFile c) \<Rightarrow> Inl TypeError)"

subsection \<open>The compiled pattern\<close>

text \<open>
  \<open>re.compile(re.escape(start_tag) + r"(.*?)" + re.escape(end_tag), re.DOTALL | re.IGNORECASE)\<close>:
  the literal \<open>start_tag\<close>, a lazy group of any characters (line breaks too), the literal
  \<open>end_tag\<close>. Under \<open>IGNORECASE\<close> a character of the text matches a literal character when
  both have the same lower case.

  \<open>lit_match lit text\<close> matches the literal at the head of the text and returns the matched
  characters of the text and what follows them.
\<close>

fun lit_match :: "string \<Rightarrow> string \<Rightarrow> (string \<times> string) option" where
  "lit_match [] text = Some ([], text)"
| "lit_match (p # ps) [] = None"
| "lit_match (p # ps) (c # cs) =
     (if unicode_tolower c = unicode_tolower p
      then map_option (\<lambda>(m, r). (c # m, r)) (lit_match ps cs)
      else None)"

text \<open>
  The lazy group followed by \<open>end_tag\<close>: the group takes no character if \<open>end_tag\<close> matches
  at once, and one more character at each further try. \<open>skip\<close> refuses the try with no
  character. The result is the group, the matched end tag and the rest of the text.
\<close>

fun lazy_group :: "bool \<Rightarrow> string \<Rightarrow> string \<Rightarrow> (string \<times> string \<times> string) option" where
  "lazy_group skip end_tag [] =
     (if skip then None
      else map_option (\<lambda>(m, r). ([], m, r)) (lit_match end_tag []))"
| "lazy_group skip end_tag (c # cs) =
     (case (if skip then None else lit_match end_tag (c # cs)) of
        Some (m, r) \<Rightarrow> Some ([], m, r)
      | None \<Rightarrow> map_option (\<lambda>(g, m, r). (c # g, m, r)) (lazy_group False end_tag cs))"

text \<open>
  A match of the whole pattern at the head of the text: the matched text (group 0), the
  group (group 1) and the rest. With \<open>must_advance\<close> the engine refuses an empty match,
  which the pattern has only when both tags are empty.
\<close>

definition match_at ::
  "bool \<Rightarrow> string \<Rightarrow> string \<Rightarrow> string \<Rightarrow> (string \<times> string \<times> string) option" where
  "match_at must_advance start_tag end_tag text =
     (case lit_match start_tag text of
        None \<Rightarrow> None
      | Some (ms, r) \<Rightarrow>
          (case lazy_group (must_advance \<and> start_tag = [] \<and> end_tag = []) end_tag r of
             None \<Rightarrow> None
           | Some (g, me, rest) \<Rightarrow> Some (ms @ g @ me, g, rest)))"

text \<open>
  \<open>pattern.search\<close>: the match at the leftmost position that has one. The result is the
  text before the match, group 0, group 1 and the text after the match. \<open>must_advance\<close>
  holds for the first position only.
\<close>

fun search ::
  "bool \<Rightarrow> string \<Rightarrow> string \<Rightarrow> string \<Rightarrow> (string \<times> string \<times> string \<times> string) option" where
  "search must_advance start_tag end_tag [] =
     map_option (\<lambda>(w, g, r). ([], w, g, r)) (match_at must_advance start_tag end_tag [])"
| "search must_advance start_tag end_tag (c # cs) =
     (case match_at must_advance start_tag end_tag (c # cs) of
        Some (w, g, r) \<Rightarrow> Some ([], w, g, r)
      | None \<Rightarrow>
          map_option (\<lambda>(p, w, g, r). (c # p, w, g, r)) (search False start_tag end_tag cs))"

subsection \<open>The replacement template\<close>

text \<open>
  \<open>pattern.sub(replacement, text)\<close> reads a string replacement as a template: a backslash
  starts an escape. The template is parsed once, into literal characters and references to
  group 0 and group 1 (the pattern has one group). Every error of the parser (\<open>re.error\<close>,
  and \<open>IndexError\<close> for an unknown group name) is the value \<open>None\<close>.
\<close>

datatype template_item = Literal char | Group nat

definition is_digit :: "char \<Rightarrow> bool" where
  "is_digit c = (c \<in> set ''0123456789'')"

definition is_octdigit :: "char \<Rightarrow> bool" where
  "is_octdigit c = (c \<in> set ''01234567'')"

definition is_ascii_letter :: "char \<Rightarrow> bool" where
  "is_ascii_letter c =
     (c \<in> set ''abcdefghijklmnopqrstuvwxyzABCDEFGHIJKLMNOPQRSTUVWXYZ'')"

definition digit_val :: "char \<Rightarrow> nat" where
  "digit_val c = of_char c - 48"

text \<open>\<open>int(digits, base)\<close> for a string of digits.\<close>

definition int_of_digits :: "nat \<Rightarrow> string \<Rightarrow> nat" where
  "int_of_digits base ds = foldl (\<lambda>acc d. acc * base + digit_val d) 0 ds"

text \<open>The table \<open>ESCAPES\<close> of the parser, for the character after the backslash.\<close>

definition ESCAPES :: "char \<Rightarrow> char option" where
  "ESCAPES = map_of
     [(CHR ''a'', CHR 0x07), (CHR ''b'', CHR 0x08), (CHR ''f'', CHR 0x0C),
      (CHR ''n'', CHR 0x0A), (CHR ''r'', CHR 0x0D), (CHR ''t'', CHR 0x09),
      (CHR ''v'', CHR 0x0B), (backslash, backslash)]"

text \<open>
  One escape: \<open>c\<close> is the character after the backslash, \<open>s\<close> the text after \<open>c\<close>. The result
  is the items of the escape and the text left to parse.
  \<^item> \<open>\g<number>\<close> is a group reference; the number is written in ASCII decimal digits (the
    parser of CPython 3.12; earlier versions take further spellings of a number, with a
    deprecation warning); a missing \<open><\<close>, \<open>>\<close> or name, a name that is no number, and a
    group the pattern does not have are errors;
  \<^item> \<open>\0\<close> with up to two more octal digits is the character of that octal value;
  \<^item> a digit \<open>1-9\<close> followed by two octal digits (itself octal) is an octal character, an
    error above \<open>0o377\<close>; any other one or two digits are a group number;
  \<^item> an escape of \<open>ESCAPES\<close> is its character; any other ASCII letter is an error; any other
    character stays, with its backslash.
\<close>

definition template_escape :: "char \<Rightarrow> string \<Rightarrow> (template_item list \<times> string) option" where
  "template_escape c s =
     (if c = CHR ''g'' then
        (case s of
           [] \<Rightarrow> None
         | l # ns \<Rightarrow>
             if l \<noteq> CHR ''<'' then None
             else if CHR ''>'' \<notin> set ns then None
             else
               (let name = takeWhile (\<lambda>x. x \<noteq> CHR ''>'') ns;
                    rest = drop (Suc (length name)) ns
                in if name = [] then None
                   else if \<not> list_all is_digit name then None
                   else if int_of_digits 10 name > 1 then None
                   else Some ([Group (int_of_digits 10 name)], rest)))
      else if c = CHR ''0'' then
        (let ds = takeWhile is_octdigit (take 2 s)
         in Some ([Literal (char_of (int_of_digits 8 (c # ds) mod 256))], drop (length ds) s))
      else if is_digit c then
        (case s of
           d # s' \<Rightarrow>
             if is_digit d then
               (case s' of
                  d' # s'' \<Rightarrow>
                    if is_octdigit c \<and> is_octdigit d \<and> is_octdigit d' then
                      (if int_of_digits 8 [c, d, d'] > 255 then None
                       else Some ([Literal (char_of (int_of_digits 8 [c, d, d']))], s''))
                    else if int_of_digits 10 [c, d] > 1 then None
                    else Some ([Group (int_of_digits 10 [c, d])], s')
                | [] \<Rightarrow>
                    if int_of_digits 10 [c, d] > 1 then None
                    else Some ([Group (int_of_digits 10 [c, d])], s'))
             else if int_of_digits 10 [c] > 1 then None
             else Some ([Group (int_of_digits 10 [c])], s)
         | [] \<Rightarrow>
             if int_of_digits 10 [c] > 1 then None
             else Some ([Group (int_of_digits 10 [c])], s))
      else
        (case ESCAPES c of
           Some e \<Rightarrow> Some ([Literal e], s)
         | None \<Rightarrow>
             if is_ascii_letter c then None
             else Some ([Literal backslash, Literal c], s)))"

lemma template_escape_length:
  "template_escape c s = Some (items, rest) \<Longrightarrow> length rest \<le> length s"
  by (auto simp: template_escape_def Let_def split: if_splits list.splits option.splits)

function parse_template :: "string \<Rightarrow> template_item list option" where
  "parse_template [] = Some []"
| "parse_template [c] =
     (if c = backslash then None else Some [Literal c])"
| "parse_template (c # d # s) =
     (if c = backslash then
        (case template_escape d s of
           None \<Rightarrow> None
         | Some (items, rest) \<Rightarrow> map_option ((@) items) (parse_template rest))
      else map_option ((#) (Literal c)) (parse_template (d # s)))"
  by pat_completeness auto
termination
  by (relation "measure length") (auto dest: template_escape_length)

text \<open>\<open>match.expand(template)\<close>: the literals as they are, a reference as its group.\<close>

fun expand_item :: "string \<Rightarrow> string \<Rightarrow> template_item \<Rightarrow> string" where
  "expand_item whole g (Literal c) = [c]"
| "expand_item whole g (Group n) = (if n = 0 then whole else g)"

definition expand_template :: "template_item list \<Rightarrow> string \<Rightarrow> string \<Rightarrow> string" where
  "expand_template template whole g = concat (map (expand_item whole g) template)"

subsection \<open>pattern.sub\<close>

text \<open>
  The substitution loop of \<open>pattern.sub\<close> with no count: search from the end of the last
  match, copy the text before the match, append the expanded template, and go on after the
  match; after an empty match the next search must advance. The text after the last match
  is copied.
\<close>

lemma lit_match_append:
  "lit_match lit t = Some (m, r) \<Longrightarrow> t = m @ r \<and> length m = length lit"
  by (induction lit t arbitrary: m r rule: lit_match.induct) (auto split: if_splits)

lemma lazy_group_append:
  "lazy_group skip end_tag t = Some (g, m, r) \<Longrightarrow>
     t = g @ m @ r \<and> length m = length end_tag \<and> (skip \<longrightarrow> g \<noteq> [])"
  by (induction skip end_tag t arbitrary: g m r rule: lazy_group.induct)
     (auto split: if_splits option.splits dest: lit_match_append)

lemma match_at_append:
  "match_at ma start_tag end_tag t = Some (w, g, r) \<Longrightarrow>
     t = w @ r \<and> (ma \<longrightarrow> w \<noteq> [])"
  by (auto simp: match_at_def split: option.splits dest!: lit_match_append lazy_group_append)

lemma search_append:
  "search ma start_tag end_tag t = Some (p, w, g, r) \<Longrightarrow>
     t = p @ w @ r \<and> (ma \<longrightarrow> p \<noteq> [] \<or> w \<noteq> [])"
  by (induction ma start_tag end_tag t arbitrary: p w g r rule: search.induct)
     (auto split: option.splits dest: match_at_append)

function sub_loop ::
  "string \<Rightarrow> string \<Rightarrow> template_item list \<Rightarrow> bool \<Rightarrow> string \<Rightarrow> string" where
  "sub_loop start_tag end_tag template must_advance text =
     (case search must_advance start_tag end_tag text of
        None \<Rightarrow> text
      | Some (p, w, g, rest) \<Rightarrow>
          p @ expand_template template w g
            @ sub_loop start_tag end_tag template (w = []) rest)"
  by pat_completeness auto
termination
  apply (relation "measure (\<lambda>(s, e, t, ma, txt). 2 * length txt + (if ma then 0 else 1))")
   apply simp
  apply (auto dest!: search_append simp flip: length_greater_0_conv)
  done

declare sub_loop.simps [simp del]

subsection \<open>safe\_replace\_between\_tags\<close>

definition safe_replace_between_tags ::
  "string \<Rightarrow> string \<Rightarrow> string \<Rightarrow> string \<Rightarrow> error + string" where
  "safe_replace_between_tags original_text start_tag end_tag new_inner_text =
     (if search False start_tag end_tag original_text = None
      then Inl (ValueError (''Tags not found: '' @ start_tag @ '' ... '' @ end_tag))
      else
        (let replacement = start_tag @ [nl] @ new_inner_text @ [nl] @ end_tag
         in case parse_template replacement of
              None \<Rightarrow> Inl TemplateError
            | Some template \<Rightarrow>
                Inr (sub_loop start_tag end_tag template False original_text)))"

section \<open>streamlit\_app.py\<close>

subsection \<open>Python floats\<close>

text \<open>
  A Python \<open>float\<close> is an IEEE 754 binary64 number. \<open>Finite m e\<close> is the number \<open>m * 2 ^ e\<close>;
  it is a binary64 number when \<open>valid_double\<close> holds. The sign of a zero is not kept: the
  builder only subtracts the positive constant \<open>0.01\<close> from a float, which gives the same
  result for both zeros and never gives the negative zero.
\<close>

datatype pyfloat = Finite int int | PosInf | NegInf | NaN

fun valid_double :: "pyfloat \<Rightarrow> bool" where
  "valid_double (Finite m e) = (\<bar>m\<bar> < 2 ^ 53 \<and> - 1074 \<le> e \<and> e \<le> 971)"
| "valid_double x = True"

text \<open>\<open>p / q\<close> rounded to the nearest integer, a tie to the even one (\<open>0 < q\<close>).\<close>

definition round_half_even :: "int \<Rightarrow> int \<Rightarrow> int" where
  "round_half_even p q =
     (let d = p div q; r = p mod q
      in if 2 * r < q then d
         else if q < 2 * r then d + 1
         else if even d then d else d + 1)"

text \<open>\<open>int.bit_length()\<close> of a number that is not negative.\<close>

function bit_length :: "int \<Rightarrow> nat" where
  "bit_length n = (if n \<le> 0 then 0 else Suc (bit_length (n div 2)))"
  by pat_completeness auto
termination
  by (relation "measure nat") auto

declare bit_length.simps [simp del]

text \<open>The exponent of the leading bit of \<open>p / q\<close>, for \<open>0 < p\<close> and \<open>0 < q\<close>.\<close>

definition floor_log2 :: "int \<Rightarrow> int \<Rightarrow> int" where
  "floor_log2 p q =
     (let l = int (bit_length p) - int (bit_length q)
      in if q * 2 ^ bit_length p \<le> p * 2 ^ bit_length q then l else l - 1)"

text \<open>
  The exact value \<open>p / q\<close> (\<open>0 < q\<close>) rounded to binary64, to nearest with ties to even: 53
  significant bits, the exponent of a unit in the last place at least \<open>-1074\<close>, infinity
  from \<open>2 ^ 1024\<close> on.
\<close>

definition round_to_double :: "int \<Rightarrow> int \<Rightarrow> pyfloat" where
  "round_to_double p q =
     (if p = 0 then Finite 0 0
      else
        (let e = max (floor_log2 \<bar>p\<bar> q - 52) (- 1074);
             m = round_half_even (p * 2 ^ nat (- e)) (q * 2 ^ nat e)
         in if 971 < e \<or> (e = 971 \<and> \<bar>m\<bar> = 2 ^ 53)
            then (if 0 < p then PosInf else NegInf)
            else Finite m e))"

text \<open>The subtraction \<open>x - y\<close> of two floats.\<close>

fun float_sub :: "pyfloat \<Rightarrow> pyfloat \<Rightarrow> pyfloat" where
  "float_sub (Finite m1 e1) (Finite m2 e2) =
     (let e = min e1 e2;
          d = m1 * 2 ^ nat (e1 - e) - m2 * 2 ^ nat (e2 - e)
      in round_to_double (d * 2 ^ nat e) (2 ^ nat (- e)))"
| "float_sub NaN y = NaN"
| "float_sub x NaN = NaN"
| "float_sub PosInf PosInf = NaN"
| "float_sub NegInf NegInf = NaN"
| "float_sub PosInf y = PosInf"
| "float_sub NegInf y = NegInf"
| "float_sub x PosInf = NegInf"
| "float_sub x NegInf = PosInf"

text \<open>The literal \<open>0.01\<close>: the binary64 number nearest to one hundredth.\<close>

definition float_0_01 :: pyfloat where
  "float_0_01 = Finite 5764607523034235 (- 59)"

text \<open>\<open>str(n)\<close> for an integer that is not negative.\<close>

definition digit_char :: "int \<Rightarrow> char" where
  "digit_char d = ''0123456789'' ! nat d"

function str_int :: "int \<Rightarrow> string" where
  "str_int n = (if n < 10 then [digit_char n] else str_int (n div 10) @ [digit_char (n mod 10)])"
  by pat_completeness auto
termination
  by (relation "measure nat") auto

declare str_int.simps [simp del]

text \<open>
  A number of hundredths written with two decimals, as the format \<open>0.2f\<close> writes it; the
  sign is given apart, since a negative float that rounds to zero keeps its sign.
\<close>

definition str_hundredths :: "bool \<Rightarrow> int \<Rightarrow> string" where
  "str_hundredths negative k =
     (if negative then ''-'' else [])
       @ str_int (k div 100) @ ''.'' @ [digit_char (k mod 100 div 10), digit_char (k mod 10)]"

text \<open>
  The format \<open>f"{x:0.2f}"\<close>: the exact value of the float, rounded to two decimals to nearest
  with ties to even.
\<close>

fun format_2f :: "pyfloat \<Rightarrow> string" where
  "format_2f (Finite m e) =
     str_hundredths (m < 0)
       (round_half_even (\<bar>m\<bar> * 100 * 2 ^ nat e) (2 ^ nat (- e)))"
| "format_2f PosInf = ''inf''"
| "format_2f NegInf = ''-inf''"
| "format_2f NaN = ''nan''"

subsection \<open>build\_handlebars\<close>

text \<open>
  A tier as the application builds it: \<open>name\<close> and \<open>title\<close> are strings, \<open>min_gift\<close> is a
  float (the application applies \<open>float\<close> when it builds the tier), \<open>max_gift\<close> is optional
  and not read by the builder.
\<close>

record tier =
  name :: string
  title :: string
  min_gift :: pyfloat
  max_gift :: "pyfloat option"

abbreviation dquote :: char where
  "dquote \<equiv> CHR 0x22"

text \<open>
  The loop \<open>for i, tier in enumerate(tiers_list)\<close>, with \<open>n\<close> the length of the whole list
  and \<open>out_lines\<close> the lines appended so far. The opening line is an f-string, in which a
  doubled brace is one brace; the other lines are plain strings, written as the source
  has them.
\<close>

fun tier_loop :: "int \<Rightarrow> int \<Rightarrow> tier list \<Rightarrow> string list \<Rightarrow> string list" where
  "tier_loop n i [] out_lines = out_lines"
| "tier_loop n i (tier # tiers) out_lines =
     (let min_g = min_gift tier;
          compare_value = float_sub min_g float_0_01;
          compare_value_str = format_2f compare_value
      in if i < n - 1
         then tier_loop n (i + 1) tiers
                (out_lines @
                   [''{{#if (compare Gift.amount.value '' @ [dquote] @ ''>'' @ [dquote] @ '' ''
                      @ compare_value_str @ '')}}'',
                    ''<p>'', name tier, ''<br>'', title tier, ''</p>'',
                    ''{{{{else}}}}''])
         else tier_loop n (i + 1) tiers
                (out_lines @ [''<p>'', name tier, ''<br>'', title tier, ''</p>'']))"

text \<open>The loop \<open>for i in range(n - 1)\<close> that appends the closing tags.\<close>

definition closing_tags :: "int \<Rightarrow> string list" where
  "closing_tags n = replicate (nat (n - 1)) ''{{{{/if}}}}''"

text \<open>\<open>out_lines\<close> when the function returns, for a list that is not empty.\<close>

definition final_out_lines :: "tier list \<Rightarrow> string list" where
  "final_out_lines tiers_list =
     (let n = int (length tiers_list)
      in tier_loop n 0 tiers_list [] @ closing_tags n)"

definition build_handlebars :: "tier list \<Rightarrow> string" where
  "build_handlebars tiers_list =
     (let n = int (length tiers_list)
      in if n = 0 then [] else join_nl (final_out_lines tiers_list))"

section \<open>The descriptions the properties are stated with\<close>

subsection \<open>The shape of the snippet\<close>

text \<open>
  The parts of the snippet, named as the description of the builder names them: the
  rendered block of a tier, its opening conditional, the guarded block of a tier that is not
  the last one, and the chain of a list of tiers that is not empty.
\<close>

definition rendered_block :: "tier \<Rightarrow> string list" where
  "rendered_block t = [''<p>'', name t, ''<br>'', title t, ''</p>'']"

definition opening_conditional :: "tier \<Rightarrow> string" where
  "opening_conditional t =
     ''{{#if (compare Gift.amount.value '' @ [dquote] @ ''>'' @ [dquote] @ '' ''
       @ format_2f (float_sub (min_gift t) float_0_01) @ '')}}''"

definition else_marker :: string where
  "else_marker = ''{{{{else}}}}''"

definition closing_marker :: string where
  "closing_marker = ''{{{{/if}}}}''"

definition guarded_block :: "tier \<Rightarrow> string list" where
  "guarded_block t = opening_conditional t # rendered_block t @ [else_marker]"

definition tier_chain :: "tier list \<Rightarrow> string list" where
  "tier_chain ts =
     concat (map guarded_block (butlast ts)) @ rendered_block (last ts)
       @ replicate (length ts - 1) closing_marker"

subsection \<open>Tags in a document\<close>

text \<open>
  Two texts are the same ignoring case when their lower-case forms are equal. A text starts
  with a tag when its first characters are the tag, ignoring case; a tag occurs in a text
  when some tail of the text starts with it; a document has a span when some tail of it
  starts with the start tag and the end tag occurs after that start tag.
\<close>

definition same_ignoring_case :: "string \<Rightarrow> string \<Rightarrow> bool" where
  "same_ignoring_case a b = (lower a = lower b)"

definition starts_with_tag :: "string \<Rightarrow> string \<Rightarrow> bool" where
  "starts_with_tag t tag = same_ignoring_case (take (length tag) t) tag"

fun tails :: "'a list \<Rightarrow> 'a list list" where
  "tails [] = [[]]"
| "tails (x # xs) = (x # xs) # tails xs"

definition tag_occurs :: "string \<Rightarrow> string \<Rightarrow> bool" where
  "tag_occurs tag t = list_ex (\<lambda>u. starts_with_tag u tag) (tails t)"

definition has_span :: "string \<Rightarrow> string \<Rightarrow> string \<Rightarrow> bool" where
  "has_span start_tag end_tag doc =
     list_ex (\<lambda>u. starts_with_tag u start_tag \<and> tag_occurs end_tag (drop (length start_tag) u))
       (tails doc)"

text \<open>The file name ends with the suffix, ignoring case.\<close>

definition ends_with_ignoring_case :: "string \<Rightarrow> string \<Rightarrow> bool" where
  "ends_with_ignoring_case s suffix =
     same_ignoring_case (drop (length s - length suffix) s) suffix"

subsection \<open>Markers in the snippet\<close>





subsection \<open>The first span and the region between the tags\<close>

text \<open>
  A document \<open>pre @ ms @ g @ me @ rest\<close> has its first span at \<open>ms @ g @ me\<close> when \<open>ms\<close> is the
  start tag and \<open>me\<close> the end tag, ignoring case, the start tag starts at no earlier position
  (leftmost), and after \<open>ms\<close> the end tag starts at no position before \<open>me\<close> (shortest).
\<close>

definition first_span ::
  "string \<Rightarrow> string \<Rightarrow> string \<Rightarrow> string \<Rightarrow> string \<Rightarrow> string \<Rightarrow> string \<Rightarrow> bool" where
  "first_span start_tag end_tag pre ms g me rest =
     (same_ignoring_case ms start_tag \<and> same_ignoring_case me end_tag
      \<and> list_all (\<lambda>b. b = [] \<or> \<not> starts_with_tag (b @ ms @ g @ me @ rest) start_tag)
           (tails pre)
      \<and> list_all (\<lambda>b. b = [] \<or> \<not> starts_with_tag (b @ me @ rest) end_tag) (tails g))"

text \<open>
  Reading the region between the tags back, with the pattern of
  \<open>safe_replace_between_tags\<close>: group 1 of \<open>pattern.search\<close>.
\<close>

definition extract_between :: "string \<Rightarrow> string \<Rightarrow> string \<Rightarrow> string option" where
  "extract_between doc start_tag end_tag =
     map_option (\<lambda>(p, w, g, r). g) (search False start_tag end_tag doc)"

section \<open>Properties of build\_handlebars\<close>

lemma threshold_10000: "format_2f (float_sub (Finite 10000 0) float_0_01) = ''9999.99''"
  by code_simp

text \<open>
  Claim C9: \<open>build_handlebars\<close> applied to the empty list of tiers returns the empty string.
\<close>

theorem build_handlebars_empty: "build_handlebars [] = []"
  by (simp add: build_handlebars_def)

text \<open>
  Claim C2, evaluated: for two tiers with the minimum gifts 10000 and 500 the builder returns
  one opening line with the threshold \<open>9999.99\<close>, the first tier's block, an else line, the
  second tier's block and one closing line. The else line and the closing line are the
  plain strings of the source, which keep their four braces on each side; the two-brace
  markers of the builder's documented example are not what is written.
\<close>

theorem build_handlebars_two_tiers:
  "build_handlebars
     [\<lparr>name = n1, title = t1, min_gift = Finite 10000 0, max_gift = x1\<rparr>,
      \<lparr>name = n2, title = t2, min_gift = Finite 500 0, max_gift = x2\<rparr>]
   = join_nl
       [''{{#if (compare Gift.amount.value '' @ [dquote] @ ''>'' @ [dquote] @ '' 9999.99)}}'',
        ''<p>'', n1, ''<br>'', t1, ''</p>'',
        ''{{{{else}}}}'',
        ''<p>'', n2, ''<br>'', t2, ''</p>'',
        ''{{{{/if}}}}'']"
  by (simp add: build_handlebars_def final_out_lines_def closing_tags_def threshold_10000)

lemma tier_loop_lines:
  "i + int (length ts) = n \<Longrightarrow>
     tier_loop n i ts out_lines =
       out_lines @ (if ts = [] then []
                    else concat (map guarded_block (butlast ts)) @ rendered_block (last ts))"
proof (induction ts arbitrary: i out_lines)
  case Nil
  then show ?case by simp
next
  case (Cons t ts)
  have step: "(i + 1) + int (length ts) = n"
    using Cons.prems by simp
  show ?case
  proof (cases "ts = []")
    case True
    then have "\<not> i < n - 1"
      using Cons.prems by simp
    then show ?thesis
      using True by (simp add: rendered_block_def Let_def)
  next
    case False
    then have "i < n - 1"
      using Cons.prems by (cases ts) auto
    then show ?thesis
      using False Cons.IH [OF step]
      by (simp add: Let_def guarded_block_def rendered_block_def opening_conditional_def
          else_marker_def)
  qed
qed

lemma final_out_lines_chain:
  "ts \<noteq> [] \<Longrightarrow> final_out_lines ts = tier_chain ts"
  by (simp add: final_out_lines_def tier_chain_def closing_tags_def closing_marker_def
      tier_loop_lines Let_def)

subsection \<open>Counting the markers\<close>

















lemma set_butlast: "t \<in> set (butlast ts) \<Longrightarrow> t \<in> set ts"
  by (rule in_set_butlastD)






subsection \<open>Rounding\<close>

lemma round_half_even_error:
  assumes "0 < q"
  shows "\<bar>real_of_int (round_half_even p q) - real_of_int p / real_of_int q\<bar> \<le> 1 / 2"
proof -
  define d where "d = p div q"
  define r where "r = p mod q"
  define x where "x = real_of_int r / real_of_int q"
  have r: "0 \<le> r" "r < q"
    using assms by (simp_all add: r_def)
  have "p = q * d + r"
    by (simp add: d_def r_def)
  then have "real_of_int p = real_of_int q * real_of_int d + real_of_int r"
    by (metis of_int_add of_int_mult)
  then have pq: "real_of_int p / real_of_int q = real_of_int d + x"
    using assms by (simp add: field_simps x_def)
  have x: "0 \<le> x" "x < 1"
    using r assms by (simp_all add: x_def)
  have lt: "x < 1 / 2" if "2 * r < q"
  proof -
    have "real_of_int (2 * r) < real_of_int q"
      using that by (simp only: of_int_less_iff)
    then show ?thesis
      using assms by (simp add: x_def field_simps)
  qed
  have gt: "1 / 2 < x" if "q < 2 * r"
  proof -
    have "real_of_int q < real_of_int (2 * r)"
      using that by (simp only: of_int_less_iff)
    then show ?thesis
      using assms by (simp add: x_def field_simps)
  qed
  have eq: "x = 1 / 2" if "2 * r = q"
  proof -
    have "real_of_int (2 * r) = real_of_int q"
      using that by simp
    then show ?thesis
      using assms by (simp add: x_def field_simps)
  qed
  consider "2 * r < q" | "q < 2 * r" | "2 * r = q"
    by linarith
  then show ?thesis
  proof cases
    case 1
    then have "round_half_even p q = d"
      by (simp add: round_half_even_def Let_def d_def r_def)
    then show ?thesis
      using pq lt [OF 1] x by simp
  next
    case 2
    then have "round_half_even p q = d + 1"
      by (simp add: round_half_even_def Let_def d_def r_def)
    then show ?thesis
      using pq gt [OF 2] x by simp
  next
    case 3
    then have "round_half_even p q = d \<or> round_half_even p q = d + 1"
      by (simp add: round_half_even_def Let_def d_def r_def)
    then show ?thesis
      using pq eq [OF 3] by auto
  qed
qed

lemma round_half_even_eq:
  assumes "0 < q" and "\<bar>real_of_int p / real_of_int q - real_of_int n\<bar> < 1 / 2"
  shows "round_half_even p q = n"
proof -
  have "\<bar>real_of_int (round_half_even p q) - real_of_int n\<bar> < 1"
    using round_half_even_error [OF assms(1), of p] assms(2) by linarith
  then have "\<bar>real_of_int (round_half_even p q - n)\<bar> < 1"
    by simp
  then have "\<bar>round_half_even p q - n\<bar> < 1"
    by (metis of_int_1 of_int_abs of_int_less_iff)
  then show ?thesis
    by linarith
qed

lemma bit_length_bounds:
  "0 < n \<Longrightarrow> 2 ^ (bit_length n - 1) \<le> n \<and> n < 2 ^ bit_length n"
proof (induction n rule: bit_length.induct)
  case (1 n)
  show ?case
  proof (cases "n div 2 = 0")
    case True
    then have "n = 1"
      using "1.prems" by linarith
    then show ?thesis
      by (simp add: bit_length.simps [of 1] bit_length.simps [of 0])
  next
    case False
    then have pos: "0 < n div 2"
      using "1.prems" by linarith
    define k where "k = bit_length (n div 2)"
    have bl: "bit_length n = Suc k"
      using "1.prems" by (simp add: bit_length.simps [of n] k_def)
    have "0 < k"
      using pos by (simp add: bit_length.simps [of "n div 2"] k_def)
    then obtain j where j: "k = Suc j"
      by (cases k) auto
    have ih: "2 ^ j \<le> n div 2" "n div 2 < 2 ^ k"
      using "1.IH" "1.prems" pos j by (simp_all add: k_def)
    have "(2::int) ^ k \<le> 2 * (n div 2)"
      using ih(1) j by simp
    then have lo: "2 ^ k \<le> n"
      by linarith
    have "n < 2 * (n div 2) + 2"
      by linarith
    then have hi: "n < 2 * 2 ^ k"
      using ih(2) by linarith
    show ?thesis
      using lo hi bl by simp
  qed
qed

lemma floor_log2_less:
  assumes "0 < p" "0 < q" "p < q * 2 ^ N"
  shows "floor_log2 p q < int N"
proof -
  define a where "a = bit_length p"
  define b where "b = bit_length q"
  have pa: "2 ^ (a - 1) \<le> p" "p < 2 ^ a"
    using bit_length_bounds [OF assms(1)] by (simp_all add: a_def)
  have qb: "2 ^ (b - 1) \<le> q" "q < 2 ^ b"
    using bit_length_bounds [OF assms(2)] by (simp_all add: b_def)
  have "a \<noteq> 0"
  proof
    assume "a = 0"
    then show False
      using pa(2) assms(1) by simp
  qed
  have bound: "p < 2 ^ (b + N)"
  proof -
    have "q * 2 ^ N < 2 ^ b * 2 ^ N"
      using qb(2) by simp
    then have "p < 2 ^ b * 2 ^ N"
      using assms(3) by linarith
    then show ?thesis
      by (simp add: power_add)
  qed
  show ?thesis
  proof (cases "q * 2 ^ a \<le> p * 2 ^ b")
    case True
    have lt: "p * 2 ^ b < (q * 2 ^ N) * 2 ^ b"
      by (rule mult_strict_right_mono [OF assms(3)]) simp
    have "q * 2 ^ a < (q * 2 ^ N) * 2 ^ b"
      using True lt by (rule le_less_trans)
    then have "q * 2 ^ a < q * 2 ^ (N + b)"
      by (simp only: power_add mult.assoc)
    then have "(2::int) ^ a < 2 ^ (N + b)"
      using assms(2) by simp
    then have "a < N + b"
      using power_less_imp_less_exp [of "2::int" a "N + b"] by simp
    then show ?thesis
      using True by (simp add: floor_log2_def Let_def a_def [symmetric] b_def [symmetric])
  next
    case False
    have "(2::int) ^ (a - 1) < 2 ^ (b + N)"
      using pa(1) bound by linarith
    then have "a - 1 < b + N"
      using power_less_imp_less_exp [of "2::int" "a - 1" "b + N"] by simp
    then show ?thesis
      using False \<open>a \<noteq> 0\<close>
      by (simp add: floor_log2_def Let_def a_def [symmetric] b_def [symmetric])
  qed
qed


lemma inverse_power_le:
  "k \<le> n \<Longrightarrow> 1 / 2 ^ n \<le> (1 / 2 ^ k :: real)"
  using power_increasing [of k n "2::real"] by (simp add: frac_le)

lemma round_to_double_near:
  assumes "0 < q" "p \<noteq> 0" "\<bar>p\<bar> < q * 2 ^ N" "N \<le> 52"
  shows "\<exists>m n. round_to_double p q = Finite m (- int n) \<and> 53 \<le> n + N
     \<and> \<bar>real_of_int m / 2 ^ n - real_of_int p / real_of_int q\<bar> \<le> 1 / 2 ^ (n + 1)"
proof -
  define f where "f = floor_log2 \<bar>p\<bar> q"
  have "f < int N"
    unfolding f_def using assms by (intro floor_log2_less) simp_all
  define e where "e = max (f - 52) (- 1074)"
  have e: "e \<le> int N - 53" "e < 0"
    using \<open>f < int N\<close> assms(4) by (simp_all add: e_def)
  define n where "n = nat (- e)"
  have en: "e = - int n" "nat e = 0" "nat (- e) = n" "53 \<le> n + N"
    using e by (simp_all add: n_def)
  define m where "m = round_half_even (p * 2 ^ n) q"
  have "round_to_double p q =
      (if 971 < e \<or> (e = 971 \<and> \<bar>round_half_even (p * 2 ^ nat (- e)) (q * 2 ^ nat e)\<bar> = 2 ^ 53)
       then (if 0 < p then PosInf else NegInf)
       else Finite (round_half_even (p * 2 ^ nat (- e)) (q * 2 ^ nat e)) e)"
    unfolding round_to_double_def Let_def e_def f_def using assms(2) by (simp only: if_False)
  moreover have "\<not> (971 < e \<or> (e = 971
      \<and> \<bar>round_half_even (p * 2 ^ nat (- e)) (q * 2 ^ nat e)\<bar> = 2 ^ 53))"
    using e(2) by linarith
  ultimately have "round_to_double p q
      = Finite (round_half_even (p * 2 ^ nat (- e)) (q * 2 ^ nat e)) e"
    by (simp only: if_False)
  then have r2d: "round_to_double p q = Finite m (- int n)"
    unfolding en(2) en(3) m_def using en(1) by simp
  define y where "y = real_of_int m - real_of_int (p * 2 ^ n) / real_of_int q"
  have err: "\<bar>y\<bar> \<le> 1 / 2"
    unfolding y_def m_def using assms(1) by (rule round_half_even_error)
  have eq: "real_of_int m / 2 ^ n - real_of_int p / real_of_int q = y / 2 ^ n"
    by (simp add: y_def field_simps)
  have "\<bar>y / 2 ^ n\<bar> = \<bar>y\<bar> / 2 ^ n"
    by (simp add: abs_divide)
  also have "\<dots> \<le> (1 / 2) / 2 ^ n"
    using err by (rule divide_right_mono) simp
  finally have "\<bar>y / 2 ^ n\<bar> \<le> 1 / 2 ^ (n + 1)"
    by simp
  then have "\<bar>real_of_int m / 2 ^ n - real_of_int p / real_of_int q\<bar> \<le> 1 / 2 ^ (n + 1)"
    by (simp only: eq)
  then show ?thesis
    using r2d en(4) by blast
qed

lemma abs_bounds:
  fixes x y e :: real
  shows "\<bar>x - y\<bar> \<le> e \<Longrightarrow> y - e \<le> x \<and> x \<le> y + e"
  by linarith

lemma abs_bounds_less:
  fixes x y e :: real
  shows "\<bar>x - y\<bar> < e \<Longrightarrow> y - e < x \<and> x < y + e"
  by linarith

lemma abs_bounds_trans:
  fixes x y z :: real
  shows "\<bar>x - y\<bar> \<le> e \<Longrightarrow> \<bar>y - z\<bar> \<le> f \<Longrightarrow> \<bar>x - z\<bar> \<le> e + f"
  by linarith

lemma scale_100:
  fixes x y :: real
  shows "\<bar>x - y / 100\<bar> < 1 / 200 \<Longrightarrow> \<bar>100 * x - y\<bar> < 1 / 2"
  by linarith

lemma threshold_of_cents_ge_2:
  assumes "2 \<le> c" "c \<le> 100000000000"
  shows "format_2f (float_sub (round_to_double c 100) float_0_01) = str_hundredths False (c - 1)"
proof -
  have "\<exists>m n. round_to_double c 100 = Finite m (- int n) \<and> 53 \<le> n + 30
     \<and> \<bar>real_of_int m / 2 ^ n - real_of_int c / real_of_int 100\<bar> \<le> 1 / 2 ^ (n + 1)"
    using assms by (intro round_to_double_near) simp_all
  then obtain m1 n1 where a: "round_to_double c 100 = Finite m1 (- int n1)" "23 \<le> n1"
      "\<bar>real_of_int m1 / 2 ^ n1 - real_of_int c / 100\<bar> \<le> 1 / 2 ^ (n1 + 1)"
    by auto
  define A where "A = real_of_int m1 / 2 ^ n1"
  define B :: real where "B = 5764607523034235 / 2 ^ 59"
  have p24: "(1 / 2 ^ 24 :: real) = 1 / 16777216"
    by simp
  have "1 / 2 ^ (n1 + 1) \<le> (1 / 2 ^ 24 :: real)"
    using a(2) by (intro inverse_power_le) simp
  with a(3) have "\<bar>real_of_int m1 / 2 ^ n1 - real_of_int c / 100\<bar> \<le> (1 / 2 ^ 24 :: real)"
    by (rule order_trans)
  then have A: "\<bar>A - real_of_int c / 100\<bar> \<le> 1 / 16777216"
    unfolding A_def p24 .
  have B: "\<bar>B - 1 / 100\<bar> \<le> 1 / 1000000000000000000"
    by (simp add: B_def)
  define n where "n = max n1 59"
  define d where "d = m1 * 2 ^ (n - n1) - 5764607523034235 * 2 ^ (n - 59)"
  have n: "n1 \<le> n" "59 \<le> n"
    by (simp_all add: n_def)
  have "min (- int n1) (- 59) = - int n"
    by (simp add: n_def)
  then have sub: "float_sub (Finite m1 (- int n1)) float_0_01 = round_to_double d (2 ^ n)"
    using n by (simp add: float_0_01_def Let_def d_def nat_diff_distrib')
  have p1: "(2::real) ^ (n - n1) = 2 ^ n / 2 ^ n1"
    using n(1) by (simp add: power_diff)
  have p2: "(2::real) ^ (n - 59) = 2 ^ n / 2 ^ 59"
    using n(2) by (simp add: power_diff)
  have D: "real_of_int d / 2 ^ n = A - B"
    unfolding d_def A_def B_def of_int_diff of_int_mult of_int_power of_int_numeral p1 p2
    by (simp add: field_simps)
  have c: "1 / 100 \<le> (real_of_int c - 1) / 100" "(real_of_int c - 1) / 100 \<le> 1000000000"
    using assms by simp_all
  have "(A - B) - (real_of_int c - 1) / 100 = (A - real_of_int c / 100) - (B - 1 / 100)"
    by (simp add: diff_divide_distrib)
  then have near: "\<bar>(A - B) - (real_of_int c - 1) / 100\<bar>
      \<le> 1 / 16777216 + 1 / 1000000000000000000"
    using abs_triangle_ineq4 [of "A - real_of_int c / 100" "B - 1 / 100"] A B by linarith
  have pos: "0 < A - B" and small: "A - B < 2147483648"
    using abs_bounds [OF near] c by linarith+
  have "0 < real_of_int d / 2 ^ n"
    using pos D by simp
  then have "0 < real_of_int d"
    by (simp add: zero_less_divide_iff)
  then have d: "0 < d"
    by simp
  have "real_of_int d / 2 ^ n < 2147483648"
    using small D by simp
  then have "real_of_int d < 2147483648 * 2 ^ n"
    by (simp add: field_simps)
  then have "real_of_int d < real_of_int (2 ^ n * 2 ^ 31)"
    by (simp add: mult.commute)
  then have dlt: "d < 2 ^ n * 2 ^ 31"
    by (simp only: of_int_less_iff)
  have "\<exists>m k. round_to_double d (2 ^ n) = Finite m (- int k) \<and> 53 \<le> k + 31
     \<and> \<bar>real_of_int m / 2 ^ k - real_of_int d / real_of_int (2 ^ n)\<bar> \<le> 1 / 2 ^ (k + 1)"
    using d dlt by (intro round_to_double_near) simp_all
  then obtain m3 n3 where x: "round_to_double d (2 ^ n) = Finite m3 (- int n3)" "22 \<le> n3"
      "\<bar>real_of_int m3 / 2 ^ n3 - real_of_int d / 2 ^ n\<bar> \<le> 1 / 2 ^ (n3 + 1)"
    by auto
  define X where "X = real_of_int m3 / 2 ^ n3"
  have p23: "(1 / 2 ^ 23 :: real) = 1 / 8388608"
    by simp
  have "1 / 2 ^ (n3 + 1) \<le> (1 / 2 ^ 23 :: real)"
    using x(2) by (intro inverse_power_le) simp
  with x(3) have "\<bar>real_of_int m3 / 2 ^ n3 - real_of_int d / 2 ^ n\<bar> \<le> (1 / 2 ^ 23 :: real)"
    by (rule order_trans)
  then have X: "\<bar>X - (A - B)\<bar> \<le> 1 / 8388608"
    unfolding X_def D p23 .
  have "\<bar>X - (real_of_int c - 1) / 100\<bar>
      \<le> 1 / 8388608 + (1 / 16777216 + 1 / 1000000000000000000)"
    using X near by (rule abs_bounds_trans)
  then have close: "\<bar>X - (real_of_int c - 1) / 100\<bar> < 1 / 200"
    by linarith
  have "0 < X"
    using abs_bounds_less [OF close] c by linarith
  then have "0 < real_of_int m3"
    by (simp add: X_def zero_less_divide_iff)
  then have m3: "0 < m3"
    by simp
  have e1: "real_of_int (m3 * 100) / real_of_int (2 ^ n3) = 100 * X"
    by (simp add: X_def)
  have e2: "real_of_int (c - 1) = real_of_int c - 1"
    by simp
  have "\<bar>100 * X - (real_of_int c - 1)\<bar> < 1 / 2"
    using close by (rule scale_100)
  then have "\<bar>real_of_int (m3 * 100) / real_of_int (2 ^ n3) - real_of_int (c - 1)\<bar> < 1 / 2"
    by (simp only: e1 e2)
  then have k: "round_half_even (m3 * 100) (2 ^ n3) = c - 1"
    by (intro round_half_even_eq) simp_all
  have "format_2f (Finite m3 (- int n3)) = str_hundredths False (c - 1)"
    using m3 k by simp
  then show ?thesis
    using a(1) sub x(1) by simp
qed

lemma threshold_of_cents:
  assumes "0 \<le> c" "c \<le> 100000000000"
  shows "format_2f (float_sub (round_to_double c 100) float_0_01)
     = str_hundredths (c = 0) \<bar>c - 1\<bar>"
proof -
  consider "c = 0" | "c = 1" | "2 \<le> c"
    using assms(1) by linarith
  then show ?thesis
  proof cases
    case 1
    have "format_2f (float_sub (round_to_double 0 100) float_0_01) = str_hundredths True 1"
      by code_simp
    then show ?thesis
      using 1 by simp
  next
    case 2
    have "format_2f (float_sub (round_to_double 1 100) float_0_01) = str_hundredths False 0"
      by code_simp
    then show ?thesis
      using 2 by simp
  next
    case 3
    then show ?thesis
      using threshold_of_cents_ge_2 [OF 3 assms(2)] by simp
  qed
qed

subsection \<open>The threshold of an opening conditional\<close>

lemma nth_guarded_blocks:
  "i < length bs \<Longrightarrow>
     (concat (map guarded_block bs) @ rest) ! (7 * i) = opening_conditional (bs ! i)"
proof (induction bs arbitrary: i)
  case Nil
  then show ?case by simp
next
  case (Cons b bs)
  show ?case
  proof (cases i)
    case 0
    then show ?thesis
      by (simp add: guarded_block_def)
  next
    case (Suc j)
    have len: "length (guarded_block b) = 7"
      by (simp add: guarded_block_def rendered_block_def)
    have "(concat (map guarded_block (b # bs)) @ rest) ! (7 * i)
        = (guarded_block b @ (concat (map guarded_block bs) @ rest)) ! (7 + 7 * j)"
      using Suc by simp
    also have "\<dots> = (concat (map guarded_block bs) @ rest) ! (7 * j)"
      using len by (simp add: nth_append)
    also have "\<dots> = opening_conditional (bs ! j)"
      using Cons.prems Suc by (intro Cons.IH) simp
    finally show ?thesis
      using Suc by simp
  qed
qed

lemma final_out_lines_opening:
  assumes "i + 1 < length ts"
  shows "final_out_lines ts ! (7 * i) = opening_conditional (ts ! i)"
proof -
  have ne: "ts \<noteq> []"
    using assms by auto
  have i: "i < length (butlast ts)"
    using assms by simp
  have "final_out_lines ts ! (7 * i) = opening_conditional (butlast ts ! i)"
    unfolding final_out_lines_chain [OF ne] tier_chain_def using i by (rule nth_guarded_blocks)
  then show ?thesis
    using i by (simp add: nth_butlast)
qed

lemma threshold_1e17:
  "format_2f (float_sub (round_to_double 10000000000000000000 100) float_0_01)
     = ''100000000000000000.00''"
  by code_simp

lemma str_hundredths_999999: "str_hundredths False 999999 = ''9999.99''"
  by code_simp

text \<open>
  Claim C8, as stated, at the minimum gift \<open>100000000000000000\<close> (ten to the power 17, the
  float nearest to \<open>10000000000000000000 / 100\<close>): the opening conditional of the first of
  two tiers carries \<open>100000000000000000.00\<close>, the minimum gift itself, and not the minimum
  gift less one hundredth, \<open>99999999999999999.99\<close>: the float subtraction rounds the
  difference back to the minimum gift.
\<close>

theorem threshold_not_lowered:
  "build_handlebars
     [\<lparr>name = ''Alice'', title = ''Director'',
        min_gift = round_to_double 10000000000000000000 100, max_gift = None\<rparr>,
      \<lparr>name = ''Bob'', title = ''Chair'', min_gift = Finite 0 0, max_gift = None\<rparr>]
   = join_nl
       [''{{#if (compare Gift.amount.value '' @ [dquote] @ ''>'' @ [dquote]
          @ '' 100000000000000000.00)}}'',
        ''<p>'', ''Alice'', ''<br>'', ''Director'', ''</p>'',
        ''{{{{else}}}}'',
        ''<p>'', ''Bob'', ''<br>'', ''Chair'', ''</p>'',
        ''{{{{/if}}}}'']"
  by (simp add: build_handlebars_def final_out_lines_def closing_tags_def threshold_1e17)

text \<open>
  Claim C8, amended: for every list of tiers and every tier but the last whose minimum gift
  is a whole number of hundredths \<open>c / 100\<close> with \<open>0 \<le> c \<le> 100000000000\<close> (the float nearest
  to it, an amount of at most one thousand million), the opening conditional of that tier,
  which is line \<open>7 * i\<close> of the snippet for the tier at index \<open>i\<close>, carries the threshold
  \<open>(c - 1) / 100\<close>, the minimum gift less one hundredth exactly, written with two decimal
  digits (\<open>-0.01\<close> for the minimum gift zero).
\<close>

theorem opening_threshold:
  assumes "i + 1 < length tiers_list"
    and "min_gift (tiers_list ! i) = round_to_double c 100"
    and "0 \<le> c" and "c \<le> 100000000000"
  shows "build_handlebars tiers_list = join_nl (final_out_lines tiers_list)
    \<and> final_out_lines tiers_list ! (7 * i)
        = ''{{#if (compare Gift.amount.value '' @ [dquote] @ ''>'' @ [dquote] @ '' ''
            @ str_hundredths (c = 0) \<bar>c - 1\<bar> @ '')}}''"
proof -
  have "tiers_list \<noteq> []"
    using assms(1) by auto
  then have "build_handlebars tiers_list = join_nl (final_out_lines tiers_list)"
    by (simp add: build_handlebars_def)
  moreover have "final_out_lines tiers_list ! (7 * i) = opening_conditional (tiers_list ! i)"
    using assms(1) by (rule final_out_lines_opening)
  moreover have "format_2f (float_sub (min_gift (tiers_list ! i)) float_0_01)
      = str_hundredths (c = 0) \<bar>c - 1\<bar>"
    unfolding assms(2) using assms(3,4) by (rule threshold_of_cents)
  ultimately show ?thesis
    by (simp add: opening_conditional_def)
qed

theorem opening_threshold_witness:
  "final_out_lines
     [\<lparr>name = ''Alice'', title = ''Director'', min_gift = round_to_double 1000000 100,
        max_gift = None\<rparr>,
      \<lparr>name = ''Bob'', title = ''Chair'', min_gift = round_to_double 50000 100,
        max_gift = None\<rparr>] ! 0
   = ''{{#if (compare Gift.amount.value '' @ [dquote] @ ''>'' @ [dquote] @ '' 9999.99)}}''"
  using opening_threshold [of 0
      "[\<lparr>name = ''Alice'', title = ''Director'', min_gift = round_to_double 1000000 100,
           max_gift = None\<rparr>,
        \<lparr>name = ''Bob'', title = ''Chair'', min_gift = round_to_double 50000 100,
           max_gift = None\<rparr>]" 1000000]
  by (simp add: str_hundredths_999999)

section \<open>Properties of safe\_replace\_between\_tags\<close>

lemma lower_length: "lower a = lower b \<Longrightarrow> length a = length b"
  unfolding lower_def by (rule map_eq_imp_length_eq)

lemma set_tails: "set (tails t) = {b. \<exists>a. t = a @ b}"
proof (induction t)
  case Nil
  then show ?case by simp
next
  case (Cons x xs)
  show ?case
  proof (rule set_eqI)
    fix b
    show "b \<in> set (tails (x # xs)) \<longleftrightarrow> b \<in> {b. \<exists>a. x # xs = a @ b}"
      using Cons.IH by (auto simp: Cons_eq_append_conv)
  qed
qed

lemma tag_occurs_iff:
  "tag_occurs tag t \<longleftrightarrow> (\<exists>a b. t = a @ b \<and> starts_with_tag b tag)"
  by (auto simp: tag_occurs_def list_ex_iff set_tails)

lemma has_span_iff:
  "has_span s e doc \<longleftrightarrow>
     (\<exists>a b. doc = a @ b \<and> starts_with_tag b s \<and> tag_occurs e (drop (length s) b))"
  by (auto simp: has_span_def list_ex_iff set_tails)

lemma lit_match_Some_iff:
  "lit_match lit t = Some (m, r) \<longleftrightarrow> t = m @ r \<and> lower m = lower lit"
proof (induction lit t arbitrary: m rule: lit_match.induct)
  case (1 t)
  then show ?case by (auto simp: lower_def)
next
  case (2 p ps)
  then show ?case by (auto simp: lower_def)
next
  case (3 p ps c cs)
  then show ?case
    by (cases m) (auto simp: lower_def)
qed

lemma starts_with_tag_iff:
  "starts_with_tag t tag \<longleftrightarrow> (\<exists>m r. t = m @ r \<and> lower m = lower tag)"
proof
  assume "starts_with_tag t tag"
  then have "lower (take (length tag) t) = lower tag"
    by (simp add: starts_with_tag_def same_ignoring_case_def)
  then show "\<exists>m r. t = m @ r \<and> lower m = lower tag"
    by (metis append_take_drop_id)
next
  assume "\<exists>m r. t = m @ r \<and> lower m = lower tag"
  then obtain m r where "t = m @ r" "lower m = lower tag"
    by blast
  then show "starts_with_tag t tag"
    using lower_length [of m tag]
    by (simp add: starts_with_tag_def same_ignoring_case_def)
qed

lemma lit_match_None_iff:
  "lit_match lit t = None \<longleftrightarrow> \<not> starts_with_tag t lit"
proof -
  have "lit_match lit t = None \<longleftrightarrow> \<not> (\<exists>m r. lit_match lit t = Some (m, r))"
    by (cases "lit_match lit t") auto
  then show ?thesis
    unfolding lit_match_Some_iff starts_with_tag_iff .
qed

lemma lit_match_starts:
  "starts_with_tag t lit \<Longrightarrow>
     lit_match lit t = Some (take (length lit) t, drop (length lit) t)"
  by (simp add: lit_match_Some_iff starts_with_tag_def same_ignoring_case_def)

lemma lazy_group_Some_iff:
  "lazy_group False e t = Some (g, m, r) \<longleftrightarrow>
     t = g @ m @ r \<and> lower m = lower e
     \<and> (\<forall>a b. g = a @ b \<and> b \<noteq> [] \<longrightarrow> \<not> starts_with_tag (b @ m @ r) e)"
proof (induction t arbitrary: g)
  case Nil
  show ?case
    by (auto simp: lit_match_Some_iff)
next
  case (Cons c cs)
  show ?case
  proof (cases "lit_match e (c # cs)")
    case None
    then have no: "\<not> starts_with_tag (c # cs) e"
      by (simp add: lit_match_None_iff)
    have "lazy_group False e (c # cs) = Some (g, m, r) \<longleftrightarrow>
        (\<exists>g'. g = c # g' \<and> lazy_group False e cs = Some (g', m, r))"
      using None by auto
    also have "\<dots> \<longleftrightarrow> (\<exists>g'. g = c # g' \<and> cs = g' @ m @ r \<and> lower m = lower e
        \<and> (\<forall>a b. g' = a @ b \<and> b \<noteq> [] \<longrightarrow> \<not> starts_with_tag (b @ m @ r) e))"
      by (simp add: Cons.IH)
    also have "\<dots> \<longleftrightarrow> c # cs = g @ m @ r \<and> lower m = lower e
        \<and> (\<forall>a b. g = a @ b \<and> b \<noteq> [] \<longrightarrow> \<not> starts_with_tag (b @ m @ r) e)"
    proof
      assume "\<exists>g'. g = c # g' \<and> cs = g' @ m @ r \<and> lower m = lower e
        \<and> (\<forall>a b. g' = a @ b \<and> b \<noteq> [] \<longrightarrow> \<not> starts_with_tag (b @ m @ r) e)"
      then obtain g' where g': "g = c # g'" "cs = g' @ m @ r" "lower m = lower e"
        "\<forall>a b. g' = a @ b \<and> b \<noteq> [] \<longrightarrow> \<not> starts_with_tag (b @ m @ r) e"
        by blast
      have "\<not> starts_with_tag (b @ m @ r) e" if "g = a @ b" "b \<noteq> []" for a b
      proof (cases a)
        case Nil
        then have "b @ m @ r = c # cs"
          using that g' by simp
        then show ?thesis
          using no by simp
      next
        case (Cons x a')
        then have "g' = a' @ b"
          using that g' by simp
        then show ?thesis
          using that g'(4) by blast
      qed
      then show "c # cs = g @ m @ r \<and> lower m = lower e
        \<and> (\<forall>a b. g = a @ b \<and> b \<noteq> [] \<longrightarrow> \<not> starts_with_tag (b @ m @ r) e)"
        using g' by simp
    next
      assume rhs: "c # cs = g @ m @ r \<and> lower m = lower e
        \<and> (\<forall>a b. g = a @ b \<and> b \<noteq> [] \<longrightarrow> \<not> starts_with_tag (b @ m @ r) e)"
      have "g \<noteq> []"
      proof
        assume "g = []"
        then have "starts_with_tag (c # cs) e"
          using rhs by (auto simp: starts_with_tag_iff)
        then show False
          using no by simp
      qed
      then obtain g' where g': "g = c # g'" "cs = g' @ m @ r"
        using rhs by (cases g) auto
      have "\<forall>a b. g' = a @ b \<and> b \<noteq> [] \<longrightarrow> \<not> starts_with_tag (b @ m @ r) e"
      proof (intro allI impI)
        fix a b
        assume "g' = a @ b \<and> b \<noteq> []"
        then have "g = (c # a) @ b \<and> b \<noteq> []"
          using g' by simp
        then show "\<not> starts_with_tag (b @ m @ r) e"
          using rhs by blast
      qed
      then show "\<exists>g'. g = c # g' \<and> cs = g' @ m @ r \<and> lower m = lower e
        \<and> (\<forall>a b. g' = a @ b \<and> b \<noteq> [] \<longrightarrow> \<not> starts_with_tag (b @ m @ r) e)"
        using g' rhs by blast
    qed
    finally show ?thesis .
  next
    case (Some mr)
    obtain m' r' where mr: "mr = (m', r')"
      by (cases mr)
    have yes: "starts_with_tag (c # cs) e"
      using Some by (metis lit_match_None_iff option.distinct(1))
    have m': "c # cs = m' @ r'" "lower m' = lower e"
      using Some mr by (simp_all add: lit_match_Some_iff)
    have "lazy_group False e (c # cs) = Some (g, m, r) \<longleftrightarrow> g = [] \<and> m = m' \<and> r = r'"
      using Some mr by auto
    also have "\<dots> \<longleftrightarrow> c # cs = g @ m @ r \<and> lower m = lower e
        \<and> (\<forall>a b. g = a @ b \<and> b \<noteq> [] \<longrightarrow> \<not> starts_with_tag (b @ m @ r) e)"
    proof
      assume "g = [] \<and> m = m' \<and> r = r'"
      then show "c # cs = g @ m @ r \<and> lower m = lower e
        \<and> (\<forall>a b. g = a @ b \<and> b \<noteq> [] \<longrightarrow> \<not> starts_with_tag (b @ m @ r) e)"
        using m' by simp
    next
      assume rhs: "c # cs = g @ m @ r \<and> lower m = lower e
        \<and> (\<forall>a b. g = a @ b \<and> b \<noteq> [] \<longrightarrow> \<not> starts_with_tag (b @ m @ r) e)"
      have "g = []"
      proof (rule ccontr)
        assume "g \<noteq> []"
        then have "\<not> starts_with_tag (g @ m @ r) e"
          using rhs by (metis append_Nil)
        then show False
          using yes rhs by simp
      qed
      moreover have "length m = length m'"
        using rhs m' lower_length by metis
      ultimately show "g = [] \<and> m = m' \<and> r = r'"
        using rhs m' by (metis append_Nil append_eq_append_conv)
    qed
    finally show ?thesis .
  qed
qed

lemma lazy_group_None_iff:
  "lazy_group False e t = None \<longleftrightarrow> \<not> tag_occurs e t"
proof (induction t)
  case Nil
  show ?case
    by (auto simp: tag_occurs_def lit_match_None_iff)
next
  case (Cons c cs)
  show ?case
    using Cons.IH
    by (cases "lit_match e (c # cs)")
      (auto simp: tag_occurs_def lit_match_None_iff [symmetric])
qed

lemma match_at_None_iff:
  "match_at False s e t = None \<longleftrightarrow>
     \<not> (starts_with_tag t s \<and> tag_occurs e (drop (length s) t))"
proof (cases "starts_with_tag t s")
  case True
  have lm: "lit_match s t = Some (take (length s) t, drop (length s) t)"
    by (rule lit_match_starts [OF True])
  show ?thesis
  proof (cases "lazy_group False e (drop (length s) t)")
    case None
    then show ?thesis
      using True lm by (simp add: match_at_def lazy_group_None_iff [symmetric])
  next
    case (Some x)
    then have "tag_occurs e (drop (length s) t)"
      using lazy_group_None_iff [of e "drop (length s) t"] by simp
    then show ?thesis
      using True lm Some by (simp add: match_at_def split: prod.splits)
  qed
next
  case False
  then have "lit_match s t = None"
    by (simp add: lit_match_None_iff)
  then show ?thesis
    using False by (simp add: match_at_def)
qed

lemma search_None_iff:
  "search False s e doc = None \<longleftrightarrow> \<not> has_span s e doc"
proof (induction doc)
  case Nil
  show ?case
    by (simp add: has_span_def match_at_None_iff)
next
  case (Cons c cs)
  have "search False s e (c # cs) = None \<longleftrightarrow>
      match_at False s e (c # cs) = None \<and> search False s e cs = None"
    by (cases "match_at False s e (c # cs)") auto
  then show ?case
    using Cons.IH by (simp add: has_span_def match_at_None_iff)
qed


lemma starts_with_tag_occurs:
  "starts_with_tag b tag \<Longrightarrow> tag_occurs tag (a @ b)"
  by (auto simp: tag_occurs_iff)

lemma tag_occurs_drop:
  "tag_occurs tag (drop n t) \<Longrightarrow> tag_occurs tag t"
proof -
  assume "tag_occurs tag (drop n t)"
  then obtain a b where "drop n t = a @ b" "starts_with_tag b tag"
    by (auto simp: tag_occurs_iff)
  then have "t = (take n t @ a) @ b"
    by (metis append_assoc append_take_drop_id)
  then show ?thesis
    using \<open>starts_with_tag b tag\<close> tag_occurs_iff by blast
qed

lemma tag_occurs_append:
  "tag_occurs tag b \<Longrightarrow> tag_occurs tag (a @ b)"
  by (metis append_eq_conv_conj tag_occurs_drop)

lemma has_span_occurs:
  "has_span s e doc \<Longrightarrow> tag_occurs s doc \<and> tag_occurs e doc"
proof -
  assume "has_span s e doc"
  then obtain a b where ab: "doc = a @ b" "starts_with_tag b s"
      "tag_occurs e (drop (length s) b)"
    by (auto simp: has_span_iff)
  have "tag_occurs e b"
    using ab(3) by (rule tag_occurs_drop)
  then show ?thesis
    using ab by (simp add: starts_with_tag_occurs tag_occurs_append)
qed

text \<open>
  Claim C5: \<open>safe_replace_between_tags\<close> raises the \<open>ValueError\<close> whose message names both
  tags exactly when the document has no span from the start tag to the end tag, ignoring
  case; so it raises it whenever one of the tags does not occur; and where it raises it,
  it returns no text.
\<close>

theorem tags_not_found_iff:
  "(safe_replace_between_tags doc start_tag end_tag new_inner_text
      = Inl (ValueError (''Tags not found: '' @ start_tag @ '' ... '' @ end_tag)))
     = (\<not> has_span start_tag end_tag doc)
   \<and> (\<not> tag_occurs start_tag doc \<or> \<not> tag_occurs end_tag doc \<longrightarrow>
        safe_replace_between_tags doc start_tag end_tag new_inner_text
          = Inl (ValueError (''Tags not found: '' @ start_tag @ '' ... '' @ end_tag)))
   \<and> (\<not> has_span start_tag end_tag doc \<longrightarrow>
        (\<forall>r. safe_replace_between_tags doc start_tag end_tag new_inner_text \<noteq> Inr r))"
proof -
  have iff: "(safe_replace_between_tags doc start_tag end_tag new_inner_text
      = Inl (ValueError (''Tags not found: '' @ start_tag @ '' ... '' @ end_tag)))
     = (\<not> has_span start_tag end_tag doc)"
    by (simp add: safe_replace_between_tags_def search_None_iff Let_def
        split: option.splits)
  moreover have "\<not> has_span start_tag end_tag doc"
    if "\<not> tag_occurs start_tag doc \<or> \<not> tag_occurs end_tag doc"
    using that has_span_occurs by blast
  ultimately show ?thesis
    by auto
qed

theorem tags_not_found_iff_witness:
  "safe_replace_between_tags ''Dear <!-- start here --> friend''
     ''<!-- start here -->'' ''<!-- end here -->'' ''new''
   = Inl (ValueError ''Tags not found: <!-- start here --> ... <!-- end here -->'')"
proof -
  have "\<not> tag_occurs ''<!-- end here -->'' ''Dear <!-- start here --> friend''"
    by code_simp
  then show ?thesis
    using tags_not_found_iff
      [of "''Dear <!-- start here --> friend''" "''<!-- start here -->''"
        "''<!-- end here -->''" "''new''"]
    by simp
qed


text \<open>
  Claim C1, as stated, fails: in a document with two occurrences of the tag pair the second
  occurrence is replaced as well, so the result is not the document with only the first
  occurrence replaced.
\<close>

theorem second_occurrence_replaced:
  "safe_replace_between_tags
     ''<!-- start here -->one<!-- end here --> and <!-- start here -->two<!-- end here -->''
     ''<!-- start here -->'' ''<!-- end here -->'' ''new''
   = Inr (''<!-- start here -->'' @ [nl] @ ''new'' @ [nl] @ ''<!-- end here --> and ''
          @ ''<!-- start here -->'' @ [nl] @ ''new'' @ [nl] @ ''<!-- end here -->'')
   \<and> safe_replace_between_tags
     ''<!-- start here -->one<!-- end here --> and <!-- start here -->two<!-- end here -->''
     ''<!-- start here -->'' ''<!-- end here -->'' ''new''
   \<noteq> Inr (''<!-- start here -->'' @ [nl] @ ''new'' @ [nl] @ ''<!-- end here --> and ''
          @ ''<!-- start here -->two<!-- end here -->'')"
  by code_simp

text \<open>
  Claim C3, evaluated at a replacement text with a backslash: the characters backslash and
  \<open>n\<close> come out as one line break, and a backslash before the letter \<open>d\<close> makes the
  substitution raise.
\<close>

theorem backslash_not_verbatim:
  "safe_replace_between_tags ''<!-- start here -->old<!-- end here -->''
     ''<!-- start here -->'' ''<!-- end here -->'' (''a'' @ [backslash] @ ''nb'')
   = Inr (''<!-- start here -->'' @ [nl] @ ''a'' @ [nl] @ ''b'' @ [nl] @ ''<!-- end here -->'')
   \<and> safe_replace_between_tags ''<!-- start here -->old<!-- end here -->''
     ''<!-- start here -->'' ''<!-- end here -->'' (''C:'' @ [backslash] @ ''docs'')
   = Inl TemplateError"
  by code_simp

text \<open>
  Claim C4, evaluated at a document whose tags are written in another case than the
  arguments: the tags are found, and the result carries the tags as the arguments spell
  them, not as the document did.
\<close>

theorem document_tag_case_rewritten:
  "safe_replace_between_tags ''Dear donor, <!-- START HERE -->old<!-- End Here --> Thanks''
     ''<!-- start here -->'' ''<!-- end here -->'' ''new''
   = Inr (''Dear donor, <!-- start here -->'' @ [nl] @ ''new'' @ [nl] @ ''<!-- end here --> Thanks'')"
  by code_simp

subsection \<open>The first match is the first span\<close>

lemma list_all_tails:
  "list_all P (tails t) \<longleftrightarrow> (\<forall>a b. t = a @ b \<longrightarrow> P b)"
  by (auto simp: list_all_iff set_tails)

lemma first_span_iff:
  "first_span s e pre ms g me rest \<longleftrightarrow>
     lower ms = lower s \<and> lower me = lower e
     \<and> (\<forall>a b. pre = a @ b \<and> b \<noteq> [] \<longrightarrow> \<not> starts_with_tag (b @ ms @ g @ me @ rest) s)
     \<and> (\<forall>a b. g = a @ b \<and> b \<noteq> [] \<longrightarrow> \<not> starts_with_tag (b @ me @ rest) e)"
  by (auto simp: first_span_def list_all_tails same_ignoring_case_def)

lemma starts_with_tag_take:
  "length tag \<le> length u \<Longrightarrow> starts_with_tag (u @ x) tag = starts_with_tag u tag"
  by (simp add: starts_with_tag_def)

lemma starts_with_tag_lower_cong:
  "lower u = lower v \<Longrightarrow> starts_with_tag u tag = starts_with_tag v tag"
  by (simp add: starts_with_tag_def same_ignoring_case_def lower_def flip: take_map)

lemma starts_with_tag_self: "lower m = lower tag \<Longrightarrow> starts_with_tag (m @ r) tag"
  using starts_with_tag_iff by blast

lemma match_at_Some_iff:
  "match_at False s e t = Some (w, g, r) \<longleftrightarrow>
     (\<exists>ms me. w = ms @ g @ me \<and> t = w @ r \<and> lower ms = lower s \<and> lower me = lower e
        \<and> (\<forall>a b. g = a @ b \<and> b \<noteq> [] \<longrightarrow> \<not> starts_with_tag (b @ me @ r) e))"
proof (cases "lit_match s t")
  case None
  then have no: "\<not> starts_with_tag t s"
    by (simp add: lit_match_None_iff)
  have "\<not> (\<exists>ms me. w = ms @ g @ me \<and> t = w @ r \<and> lower ms = lower s \<and> lower me = lower e
        \<and> (\<forall>a b. g = a @ b \<and> b \<noteq> [] \<longrightarrow> \<not> starts_with_tag (b @ me @ r) e))"
  proof
    assume "\<exists>ms me. w = ms @ g @ me \<and> t = w @ r \<and> lower ms = lower s \<and> lower me = lower e
        \<and> (\<forall>a b. g = a @ b \<and> b \<noteq> [] \<longrightarrow> \<not> starts_with_tag (b @ me @ r) e)"
    then obtain ms me where "t = ms @ (g @ me @ r)" "lower ms = lower s"
      by auto
    then have "starts_with_tag t s"
      by (simp add: starts_with_tag_self)
    then show False
      using no by simp
  qed
  then show ?thesis
    using None by (simp add: match_at_def)
next
  case (Some x)
  obtain ms0 r0 where x: "x = (ms0, r0)"
    by (cases x)
  have ms0: "t = ms0 @ r0" "lower ms0 = lower s"
    using Some x by (simp_all add: lit_match_Some_iff)
  have "match_at False s e t = Some (w, g, r) \<longleftrightarrow>
      (\<exists>me. lazy_group False e r0 = Some (g, me, r) \<and> w = ms0 @ g @ me)"
    using Some x by (auto simp: match_at_def split: option.splits)
  also have "\<dots> \<longleftrightarrow> (\<exists>me. r0 = g @ me @ r \<and> lower me = lower e
        \<and> (\<forall>a b. g = a @ b \<and> b \<noteq> [] \<longrightarrow> \<not> starts_with_tag (b @ me @ r) e)
        \<and> w = ms0 @ g @ me)"
    by (simp add: lazy_group_Some_iff)
  also have "\<dots> \<longleftrightarrow> (\<exists>ms me. w = ms @ g @ me \<and> t = w @ r \<and> lower ms = lower s
        \<and> lower me = lower e
        \<and> (\<forall>a b. g = a @ b \<and> b \<noteq> [] \<longrightarrow> \<not> starts_with_tag (b @ me @ r) e))"
  proof
    assume "\<exists>me. r0 = g @ me @ r \<and> lower me = lower e
        \<and> (\<forall>a b. g = a @ b \<and> b \<noteq> [] \<longrightarrow> \<not> starts_with_tag (b @ me @ r) e)
        \<and> w = ms0 @ g @ me"
    then obtain me where me: "r0 = g @ me @ r" "lower me = lower e"
        "\<forall>a b. g = a @ b \<and> b \<noteq> [] \<longrightarrow> \<not> starts_with_tag (b @ me @ r) e"
        "w = ms0 @ g @ me"
      by blast
    show "\<exists>ms me. w = ms @ g @ me \<and> t = w @ r \<and> lower ms = lower s
        \<and> lower me = lower e
        \<and> (\<forall>a b. g = a @ b \<and> b \<noteq> [] \<longrightarrow> \<not> starts_with_tag (b @ me @ r) e)"
      using ms0 me by (intro exI [of _ ms0] exI [of _ me]) simp
  next
    assume "\<exists>ms me. w = ms @ g @ me \<and> t = w @ r \<and> lower ms = lower s
        \<and> lower me = lower e
        \<and> (\<forall>a b. g = a @ b \<and> b \<noteq> [] \<longrightarrow> \<not> starts_with_tag (b @ me @ r) e)"
    then obtain ms me where m: "w = ms @ g @ me" "t = w @ r" "lower ms = lower s"
        "lower me = lower e"
        "\<forall>a b. g = a @ b \<and> b \<noteq> [] \<longrightarrow> \<not> starts_with_tag (b @ me @ r) e"
      by blast
    have "length ms = length ms0"
      using m(3) ms0(2) lower_length by metis
    moreover have "ms @ (g @ me @ r) = ms0 @ r0"
      using m ms0 by simp
    ultimately have "ms = ms0" "r0 = g @ me @ r"
      by simp_all
    then show "\<exists>me. r0 = g @ me @ r \<and> lower me = lower e
        \<and> (\<forall>a b. g = a @ b \<and> b \<noteq> [] \<longrightarrow> \<not> starts_with_tag (b @ me @ r) e)
        \<and> w = ms0 @ g @ me"
      using m by blast
  qed
  finally show ?thesis .
qed

lemma search_Some_iff:
  "search False s e doc = Some (p, w, g, r) \<longleftrightarrow>
     doc = p @ w @ r \<and> match_at False s e (w @ r) = Some (w, g, r)
     \<and> (\<forall>a b. p = a @ b \<and> b \<noteq> [] \<longrightarrow> match_at False s e (b @ w @ r) = None)"
proof (induction doc arbitrary: p)
  case Nil
  show ?case
  proof
    assume "search False s e [] = Some (p, w, g, r)"
    then have h: "p = []" "match_at False s e [] = Some (w, g, r)"
      by auto
    then have "[] = w @ r"
      using match_at_append by blast
    then show "[] = p @ w @ r \<and> match_at False s e (w @ r) = Some (w, g, r)
        \<and> (\<forall>a b. p = a @ b \<and> b \<noteq> [] \<longrightarrow> match_at False s e (b @ w @ r) = None)"
      using h by simp
  next
    assume "[] = p @ w @ r \<and> match_at False s e (w @ r) = Some (w, g, r)
        \<and> (\<forall>a b. p = a @ b \<and> b \<noteq> [] \<longrightarrow> match_at False s e (b @ w @ r) = None)"
    then show "search False s e [] = Some (p, w, g, r)"
      by auto
  qed
next
  case (Cons c cs)
  show ?case
  proof (cases "match_at False s e (c # cs)")
    case None
    have "search False s e (c # cs) = Some (p, w, g, r) \<longleftrightarrow>
        (\<exists>p'. p = c # p' \<and> search False s e cs = Some (p', w, g, r))"
      using None by auto
    also have "\<dots> \<longleftrightarrow> (\<exists>p'. p = c # p' \<and> cs = p' @ w @ r
        \<and> match_at False s e (w @ r) = Some (w, g, r)
        \<and> (\<forall>a b. p' = a @ b \<and> b \<noteq> [] \<longrightarrow> match_at False s e (b @ w @ r) = None))"
      by (simp add: Cons.IH)
    also have "\<dots> \<longleftrightarrow> c # cs = p @ w @ r \<and> match_at False s e (w @ r) = Some (w, g, r)
        \<and> (\<forall>a b. p = a @ b \<and> b \<noteq> [] \<longrightarrow> match_at False s e (b @ w @ r) = None)"
    proof
      assume "\<exists>p'. p = c # p' \<and> cs = p' @ w @ r
        \<and> match_at False s e (w @ r) = Some (w, g, r)
        \<and> (\<forall>a b. p' = a @ b \<and> b \<noteq> [] \<longrightarrow> match_at False s e (b @ w @ r) = None)"
      then obtain p' where p': "p = c # p'" "cs = p' @ w @ r"
          "match_at False s e (w @ r) = Some (w, g, r)"
          "\<forall>a b. p' = a @ b \<and> b \<noteq> [] \<longrightarrow> match_at False s e (b @ w @ r) = None"
        by blast
      have "match_at False s e (b @ w @ r) = None" if "p = a @ b" "b \<noteq> []" for a b
      proof (cases a)
        case Nil
        then have "b @ w @ r = c # cs"
          using that p' by simp
        then show ?thesis
          using None by simp
      next
        case (Cons x a')
        then have "p' = a' @ b"
          using that p' by simp
        then show ?thesis
          using that p'(4) by blast
      qed
      then show "c # cs = p @ w @ r \<and> match_at False s e (w @ r) = Some (w, g, r)
        \<and> (\<forall>a b. p = a @ b \<and> b \<noteq> [] \<longrightarrow> match_at False s e (b @ w @ r) = None)"
        using p' by simp
    next
      assume rhs: "c # cs = p @ w @ r \<and> match_at False s e (w @ r) = Some (w, g, r)
        \<and> (\<forall>a b. p = a @ b \<and> b \<noteq> [] \<longrightarrow> match_at False s e (b @ w @ r) = None)"
      have "p \<noteq> []"
      proof
        assume "p = []"
        then have "match_at False s e (c # cs) = Some (w, g, r)"
          using rhs by simp
        then show False
          using None by simp
      qed
      then obtain p' where p': "p = c # p'" "cs = p' @ w @ r"
        using rhs by (cases p) auto
      have "\<forall>a b. p' = a @ b \<and> b \<noteq> [] \<longrightarrow> match_at False s e (b @ w @ r) = None"
      proof (intro allI impI)
        fix a b
        assume "p' = a @ b \<and> b \<noteq> []"
        then have "p = (c # a) @ b \<and> b \<noteq> []"
          using p' by simp
        then show "match_at False s e (b @ w @ r) = None"
          using rhs by blast
      qed
      then show "\<exists>p'. p = c # p' \<and> cs = p' @ w @ r
        \<and> match_at False s e (w @ r) = Some (w, g, r)
        \<and> (\<forall>a b. p' = a @ b \<and> b \<noteq> [] \<longrightarrow> match_at False s e (b @ w @ r) = None)"
        using p' rhs by blast
    qed
    finally show ?thesis .
  next
    case (Some x)
    obtain w' g' r' where x: "x = (w', g', r')"
      by (cases x)
    have here: "match_at False s e (c # cs) = Some (w', g', r')"
      using Some x by simp
    have "search False s e (c # cs) = Some (p, w, g, r) \<longleftrightarrow>
        p = [] \<and> w = w' \<and> g = g' \<and> r = r'"
      using here by auto
    also have "\<dots> \<longleftrightarrow> c # cs = p @ w @ r \<and> match_at False s e (w @ r) = Some (w, g, r)
        \<and> (\<forall>a b. p = a @ b \<and> b \<noteq> [] \<longrightarrow> match_at False s e (b @ w @ r) = None)"
    proof
      assume "p = [] \<and> w = w' \<and> g = g' \<and> r = r'"
      then show "c # cs = p @ w @ r \<and> match_at False s e (w @ r) = Some (w, g, r)
        \<and> (\<forall>a b. p = a @ b \<and> b \<noteq> [] \<longrightarrow> match_at False s e (b @ w @ r) = None)"
        using here match_at_append [OF here] by simp
    next
      assume rhs: "c # cs = p @ w @ r \<and> match_at False s e (w @ r) = Some (w, g, r)
        \<and> (\<forall>a b. p = a @ b \<and> b \<noteq> [] \<longrightarrow> match_at False s e (b @ w @ r) = None)"
      have "p = []"
      proof (rule ccontr)
        assume "p \<noteq> []"
        then have "match_at False s e (p @ w @ r) = None"
          using rhs by (metis append_Nil)
        then show False
          using here rhs by simp
      qed
      then show "p = [] \<and> w = w' \<and> g = g' \<and> r = r'"
        using rhs here by simp
    qed
    finally show ?thesis .
  qed
qed

lemma earlier_start:
  assumes "lower ms = lower s" "lower me = lower e" "b \<noteq> []"
  shows "match_at False s e (b @ ms @ g @ me @ r) = None
     \<longleftrightarrow> \<not> starts_with_tag (b @ ms @ g @ me @ r) s"
proof -
  have len: "length s \<le> length (b @ ms)"
    using assms(1) lower_length [of ms s] by simp
  have "drop (length s) (b @ ms @ g @ me @ r) = drop (length s) (b @ ms) @ g @ me @ r"
    using len by simp
  moreover have "tag_occurs e (me @ r)"
    using assms(2) by (simp add: starts_with_tag_self starts_with_tag_occurs [of _ _ "[]", simplified])
  ultimately have "tag_occurs e (drop (length s) (b @ ms @ g @ me @ r))"
    by (metis append_assoc tag_occurs_append)
  then show ?thesis
    by (simp add: match_at_None_iff)
qed

lemma search_first_span:
  "search False s e doc = Some (p, w, g, r) \<longleftrightarrow>
     (\<exists>ms me. w = ms @ g @ me \<and> doc = p @ w @ r \<and> first_span s e p ms g me r)"
proof
  assume "search False s e doc = Some (p, w, g, r)"
  then have doc: "doc = p @ w @ r" and here: "match_at False s e (w @ r) = Some (w, g, r)"
    and before: "\<forall>a b. p = a @ b \<and> b \<noteq> [] \<longrightarrow> match_at False s e (b @ w @ r) = None"
    by (simp_all add: search_Some_iff)
  from here obtain ms me where m: "w = ms @ g @ me" "lower ms = lower s" "lower me = lower e"
      "\<forall>a b. g = a @ b \<and> b \<noteq> [] \<longrightarrow> \<not> starts_with_tag (b @ me @ r) e"
    by (auto simp: match_at_Some_iff)
  have "\<not> starts_with_tag (b @ ms @ g @ me @ r) s" if "p = a @ b" "b \<noteq> []" for a b
  proof -
    have "match_at False s e (b @ ms @ g @ me @ r) = None"
      using before that m(1) by auto
    then show ?thesis
      using earlier_start [OF m(2) m(3) that(2)] by simp
  qed
  then have "first_span s e p ms g me r"
    using m by (auto simp: first_span_iff)
  then show "\<exists>ms me. w = ms @ g @ me \<and> doc = p @ w @ r \<and> first_span s e p ms g me r"
    using m(1) doc by blast
next
  assume "\<exists>ms me. w = ms @ g @ me \<and> doc = p @ w @ r \<and> first_span s e p ms g me r"
  then obtain ms me where m: "w = ms @ g @ me" "doc = p @ w @ r"
      and fs: "first_span s e p ms g me r"
    by blast
  have l: "lower ms = lower s" "lower me = lower e"
    and before: "\<forall>a b. p = a @ b \<and> b \<noteq> [] \<longrightarrow> \<not> starts_with_tag (b @ ms @ g @ me @ r) s"
    and inside: "\<forall>a b. g = a @ b \<and> b \<noteq> [] \<longrightarrow> \<not> starts_with_tag (b @ me @ r) e"
    using fs by (simp_all add: first_span_iff)
  have here: "match_at False s e (w @ r) = Some (w, g, r)"
    using m(1) l inside by (auto simp: match_at_Some_iff)
  have "match_at False s e (b @ w @ r) = None" if "p = a @ b" "b \<noteq> []" for a b
    using earlier_start [OF l that(2), of g r] before that m(1) by auto
  then show "search False s e doc = Some (p, w, g, r)"
    using m(2) here by (auto simp: search_Some_iff)
qed

subsection \<open>Every span is replaced\<close>

lemma search_of_first_span:
  assumes "first_span s e p ms g me r"
  shows "search False s e (p @ ms @ g @ me @ r) = Some (p, ms @ g @ me, g, r)"
proof -
  have "\<exists>ms' me'. ms @ g @ me = ms' @ g @ me'
      \<and> p @ ms @ g @ me @ r = p @ (ms @ g @ me) @ r \<and> first_span s e p ms' g me' r"
    using assms by (intro exI [of _ ms] exI [of _ me]) simp
  then show ?thesis
    by (rule iffD2 [OF search_first_span])
qed

lemma parse_template_literal:
  "backslash \<notin> set r \<Longrightarrow> parse_template r = Some (map Literal r)"
  by (induction r rule: parse_template.induct) auto

lemma expand_template_literal:
  "expand_template (map Literal r) w g = r"
  by (induction r) (simp_all add: expand_template_def)

lemma sub_loop_Some:
  "search False s e doc = Some (p, w, g, r) \<Longrightarrow>
     sub_loop s e tpl False doc = p @ expand_template tpl w g @ sub_loop s e tpl (w = []) r"
  by (subst sub_loop.simps) simp

lemma sub_loop_None:
  "search False s e doc = None \<Longrightarrow> sub_loop s e tpl False doc = doc"
  by (subst sub_loop.simps) simp

lemma replace_rest:
  assumes "backslash \<notin> set (s @ new @ e)"
  shows "(case safe_replace_between_tags r s e new of Inr x \<Rightarrow> x | Inl err \<Rightarrow> r)
     = sub_loop s e (map Literal (s @ [nl] @ new @ [nl] @ e)) False r"
proof -
  have "backslash \<notin> set (s @ [nl] @ new @ [nl] @ e)"
    using assms by simp
  then have tpl: "parse_template (s @ [nl] @ new @ [nl] @ e)
      = Some (map Literal (s @ [nl] @ new @ [nl] @ e))"
    by (rule parse_template_literal)
  show ?thesis
  proof (cases "search False s e r")
    case None
    then show ?thesis
      by (simp add: safe_replace_between_tags_def sub_loop_None)
  next
    case (Some x)
    then show ?thesis
      using tpl by (simp add: safe_replace_between_tags_def Let_def)
  qed
qed

lemma replace_first:
  assumes found: "search False s e doc = Some (p, w, g, r)"
    and plain: "backslash \<notin> set (s @ new @ e)"
    and "w \<noteq> []"
  shows "safe_replace_between_tags doc s e new
     = Inr (p @ (s @ [nl] @ new @ [nl] @ e)
          @ (case safe_replace_between_tags r s e new of Inr x \<Rightarrow> x | Inl err \<Rightarrow> r))"
proof -
  have "backslash \<notin> set (s @ [nl] @ new @ [nl] @ e)"
    using plain by simp
  then have tpl: "parse_template (s @ [nl] @ new @ [nl] @ e)
      = Some (map Literal (s @ [nl] @ new @ [nl] @ e))"
    by (rule parse_template_literal)
  have "safe_replace_between_tags doc s e new
      = Inr (sub_loop s e (map Literal (s @ [nl] @ new @ [nl] @ e)) False doc)"
    using found tpl by (simp add: safe_replace_between_tags_def Let_def)
  also have "sub_loop s e (map Literal (s @ [nl] @ new @ [nl] @ e)) False doc
      = p @ (s @ [nl] @ new @ [nl] @ e)
          @ sub_loop s e (map Literal (s @ [nl] @ new @ [nl] @ e)) False r"
    unfolding sub_loop_Some [OF found] expand_template_literal
    using \<open>w \<noteq> []\<close> by simp
  finally show ?thesis
    by (simp only: replace_rest [OF plain])
qed

text \<open>
  Claim C1, amended: for tags that are not both empty and a replacement without a
  backslash, every occurrence of the tag pair is replaced, from left to right: in a
  document \<open>pre @ ms @ g @ me @ rest\<close> whose first (leftmost, shortest) span is \<open>ms @ g @ me\<close>,
  the text \<open>pre\<close> is kept, the span becomes the start tag, a line break, the new text, a line
  break and the end tag, and \<open>rest\<close> is processed in the same way: a further span in \<open>rest\<close>
  is replaced too, and \<open>rest\<close> stays as it is only when it has no span.
\<close>

theorem every_span_replaced:
  assumes "first_span start_tag end_tag pre ms g me rest"
    and "backslash \<notin> set (start_tag @ new_inner_text @ end_tag)"
    and "start_tag \<noteq> [] \<or> end_tag \<noteq> []"
  shows "safe_replace_between_tags (pre @ ms @ g @ me @ rest) start_tag end_tag new_inner_text
     = Inr (pre @ start_tag @ [nl] @ new_inner_text @ [nl] @ end_tag
          @ (case safe_replace_between_tags rest start_tag end_tag new_inner_text of
               Inr x \<Rightarrow> x
             | Inl err \<Rightarrow> rest))"
proof -
  have found: "search False start_tag end_tag (pre @ ms @ g @ me @ rest)
      = Some (pre, ms @ g @ me, g, rest)"
    using assms(1) by (rule search_of_first_span)
  have low: "lower ms = lower start_tag" "lower me = lower end_tag"
    using assms(1) by (simp_all add: first_span_iff)
  have "length ms = length start_tag" "length me = length end_tag"
    by (rule lower_length [OF low(1)], rule lower_length [OF low(2)])
  then have "ms @ g @ me \<noteq> []"
    using assms(3) by auto
  from replace_first [OF found assms(2) this] show ?thesis
    by simp
qed

theorem every_span_replaced_witness:
  "safe_replace_between_tags
     ''Dear donor, <!-- START here -->one<!-- end here --> and <!-- start here -->two<!-- end here -->.''
     ''<!-- start here -->'' ''<!-- end here -->'' ''new''
   = Inr (''Dear donor, <!-- start here -->'' @ [nl] @ ''new'' @ [nl] @ ''<!-- end here --> and ''
          @ ''<!-- start here -->'' @ [nl] @ ''new'' @ [nl] @ ''<!-- end here -->.'')"
proof -
  have fs: "first_span ''<!-- start here -->'' ''<!-- end here -->'' ''Dear donor, ''
      ''<!-- START here -->'' ''one'' ''<!-- end here -->''
      '' and <!-- start here -->two<!-- end here -->.''"
    by code_simp
  have plain: "backslash \<notin> set (''<!-- start here -->'' @ ''new'' @ ''<!-- end here -->'')"
    by simp
  have ne: "''<!-- start here -->'' \<noteq> [] \<or> ''<!-- end here -->'' \<noteq> []"
    by simp
  have rest: "safe_replace_between_tags '' and <!-- start here -->two<!-- end here -->.''
      ''<!-- start here -->'' ''<!-- end here -->'' ''new''
    = Inr ('' and <!-- start here -->'' @ [nl] @ ''new'' @ [nl] @ ''<!-- end here -->.'')"
    by code_simp
  from every_span_replaced [OF fs plain ne] rest show ?thesis
    by simp
qed

subsection \<open>Reading the snippet back\<close>

lemma tag_occurs_Nil: "tag_occurs [] t"
  by (cases t) (simp_all add: tag_occurs_def starts_with_tag_def same_ignoring_case_def)

lemma round_trip:
  assumes span: "has_span s e doc"
    and plain: "backslash \<notin> set (s @ new @ e)"
    and fresh: "\<not> tag_occurs e (nl # new @ nl # butlast e)"
  shows "\<exists>r. safe_replace_between_tags doc s e new = Inr r
     \<and> extract_between r s e = Some (nl # new @ [nl])"
proof -
  obtain p w g r where found: "search False s e doc = Some (p, w, g, r)"
    using span search_None_iff [of s e doc] by (cases "search False s e doc") auto
  then obtain ms me where w: "w = ms @ g @ me" and doc: "doc = p @ w @ r"
      and fs: "first_span s e p ms g me r"
    by (auto simp: search_first_span)
  have ms: "lower ms = lower s" and me: "lower me = lower e"
    and before: "\<forall>a b. p = a @ b \<and> b \<noteq> [] \<longrightarrow> \<not> starts_with_tag (b @ ms @ g @ me @ r) s"
    using fs by (simp_all add: first_span_iff)
  have e: "e \<noteq> []"
    using fresh tag_occurs_Nil by auto
  have "length me = length e"
    using me by (rule lower_length)
  then have "w \<noteq> []"
    using w e by auto
  define tl where "tl = (case safe_replace_between_tags r s e new of Inr x \<Rightarrow> x | Inl err \<Rightarrow> r)"
  have result: "safe_replace_between_tags doc s e new = Inr (p @ (s @ [nl] @ new @ [nl] @ e) @ tl)"
    using replace_first [OF found plain \<open>w \<noteq> []\<close>] by (simp add: tl_def)
  have left: "\<not> starts_with_tag (b @ s @ (nl # new @ [nl]) @ e @ tl) s"
    if "p = a @ b" "b \<noteq> []" for a b
  proof -
    have len: "length s \<le> length (b @ s)" "length s \<le> length (b @ ms)"
      using lower_length [OF ms] by simp_all
    have "starts_with_tag (b @ s @ (nl # new @ [nl]) @ e @ tl) s
        = starts_with_tag ((b @ s) @ ((nl # new @ [nl]) @ e @ tl)) s"
      by simp
    also have "\<dots> = starts_with_tag (b @ s) s"
      using len(1) by (rule starts_with_tag_take)
    also have "\<dots> = starts_with_tag (b @ ms) s"
      using ms by (intro starts_with_tag_lower_cong) (simp add: lower_def)
    also have "\<dots> = starts_with_tag ((b @ ms) @ (g @ me @ r)) s"
      using len(2) by (rule starts_with_tag_take [symmetric])
    finally show ?thesis
      using before that by simp
  qed
  have inner: "\<not> starts_with_tag (b @ e @ tl) e"
    if "nl # new @ [nl] = a @ b" "b \<noteq> []" for a b
  proof
    assume "starts_with_tag (b @ e @ tl) e"
    moreover have "b @ e @ tl = (b @ butlast e) @ (last e # tl)"
      using e by simp
    moreover have "length e \<le> length (b @ butlast e)"
      using that(2) by (cases b) simp_all
    ultimately have "starts_with_tag (b @ butlast e) e"
      using starts_with_tag_take by metis
    then have "tag_occurs e (a @ b @ butlast e)"
      by (rule starts_with_tag_occurs)
    moreover have "a @ b @ butlast e = nl # new @ nl # butlast e"
      using that(1) by (metis append_Cons append_Nil append_assoc)
    ultimately show False
      using fresh by simp
  qed
  have "first_span s e p s (nl # new @ [nl]) e tl"
    using left inner by (simp add: first_span_iff)
  then have "search False s e (p @ s @ (nl # new @ [nl]) @ e @ tl)
      = Some (p, s @ (nl # new @ [nl]) @ e, nl # new @ [nl], tl)"
    by (rule search_of_first_span)
  then have "extract_between (p @ (s @ [nl] @ new @ [nl] @ e) @ tl) s e = Some (nl # new @ [nl])"
    by (simp add: extract_between_def)
  then show ?thesis
    using result by simp
qed

text \<open>
  Claim C6, as stated, fails: a tier whose name contains the end tag gives a snippet that
  contains the end tag, and reading the region between the tags back stops at that
  occurrence.
\<close>

theorem round_trip_counterexample:
  "(case safe_replace_between_tags ''<!-- denver sig start -->old<!-- denver sig end -->''
           ''<!-- denver sig start -->'' ''<!-- denver sig end -->''
           (build_handlebars
              [\<lparr>name = ''<!-- denver sig end -->'', title = ''Chair'',
                min_gift = Finite 500 0, max_gift = None\<rparr>]) of
      Inl err \<Rightarrow> None
    | Inr r \<Rightarrow> extract_between r ''<!-- denver sig start -->'' ''<!-- denver sig end -->'')
   = Some ([nl] @ ''<p>'' @ [nl])
   \<and> [nl] @ ''<p>'' @ [nl]
     \<noteq> [nl] @ build_handlebars
              [\<lparr>name = ''<!-- denver sig end -->'', title = ''Chair'',
                min_gift = Finite 500 0, max_gift = None\<rparr>] @ [nl]"
  by code_simp

text \<open>
  Claim C6, amended: for a document with a span of the tags, tags and a snippet without a
  backslash, and a snippet in which (between its two added line breaks, and up to the
  end tag that follows it) the end tag does not occur, replacing with the snippet of
  \<open>build_handlebars\<close> succeeds, and reading the region between the same tags back from the
  result gives the snippet with one line break before it and one after it.
\<close>

theorem snippet_round_trip:
  assumes "has_span start_tag end_tag doc"
    and "backslash \<notin> set (start_tag @ build_handlebars tiers_list @ end_tag)"
    and "\<not> tag_occurs end_tag (nl # build_handlebars tiers_list @ nl # butlast end_tag)"
  shows "\<exists>r. safe_replace_between_tags doc start_tag end_tag (build_handlebars tiers_list) = Inr r
     \<and> extract_between r start_tag end_tag = Some (nl # build_handlebars tiers_list @ [nl])"
  using assms by (rule round_trip)

theorem snippet_round_trip_witness:
  "\<exists>r. safe_replace_between_tags ''Dear donor, <!-- Denver Sig Start -->old<!-- denver sig end --> Bye''
          ''<!-- denver sig start -->'' ''<!-- denver sig end -->''
          (build_handlebars
             [\<lparr>name = ''Alice'', title = ''Director'', min_gift = Finite 10000 0, max_gift = None\<rparr>,
              \<lparr>name = ''Bob'', title = ''Chair'', min_gift = Finite 500 0, max_gift = None\<rparr>])
        = Inr r
     \<and> extract_between r ''<!-- denver sig start -->'' ''<!-- denver sig end -->''
        = Some (nl # build_handlebars
             [\<lparr>name = ''Alice'', title = ''Director'', min_gift = Finite 10000 0, max_gift = None\<rparr>,
              \<lparr>name = ''Bob'', title = ''Chair'', min_gift = Finite 500 0, max_gift = None\<rparr>]
            @ [nl])"
proof -
  have h1: "has_span ''<!-- denver sig start -->'' ''<!-- denver sig end -->''
      ''Dear donor, <!-- Denver Sig Start -->old<!-- denver sig end --> Bye''"
    by code_simp
  have h2: "backslash \<notin> set (''<!-- denver sig start -->''
      @ build_handlebars
             [\<lparr>name = ''Alice'', title = ''Director'', min_gift = Finite 10000 0, max_gift = None\<rparr>,
              \<lparr>name = ''Bob'', title = ''Chair'', min_gift = Finite 500 0, max_gift = None\<rparr>]
      @ ''<!-- denver sig end -->'')"
    by code_simp
  have h3: "\<not> tag_occurs ''<!-- denver sig end -->''
      (nl # build_handlebars
             [\<lparr>name = ''Alice'', title = ''Director'', min_gift = Finite 10000 0, max_gift = None\<rparr>,
              \<lparr>name = ''Bob'', title = ''Chair'', min_gift = Finite 500 0, max_gift = None\<rparr>]
        @ nl # butlast ''<!-- denver sig end -->'')"
    by code_simp
  from snippet_round_trip [OF h1 h2 h3] show ?thesis .
qed

section \<open>Properties of list\_text\_files\_in\_folder\<close>

lemma endswith_lower:
  assumes "lower suffix = suffix"
  shows "endswith (lower s) suffix \<longleftrightarrow> ends_with_ignoring_case s suffix"
proof
  assume "endswith (lower s) suffix"
  then show "ends_with_ignoring_case s suffix"
    using assms
    by (simp add: endswith_def ends_with_ignoring_case_def same_ignoring_case_def lower_def
        drop_map)
next
  assume "ends_with_ignoring_case s suffix"
  then have eq: "lower (drop (length s - length suffix) s) = lower suffix"
    by (simp add: ends_with_ignoring_case_def same_ignoring_case_def)
  then have "length (drop (length s - length suffix) s) = length suffix"
    by (rule lower_length)
  then have "length suffix \<le> length s"
    by simp
  then show "endswith (lower s) suffix"
    using eq assms by (simp add: endswith_def lower_def drop_map)
qed

lemma lower_txt: "lower ''.txt'' = ''.txt''"
  by code_simp

text \<open>
  Claim C10, as stated, for a repository in which the path \<open>updated_letters\<close> names a file:
  the client returns one \<open>ContentFile\<close>, the comprehension cannot iterate over it, and the
  \<open>TypeError\<close> reaches the caller; no list is returned.
\<close>

theorem TypeError_propagates:
  "list_text_files_in_folder
     \<lparr>get_contents = (\<lambda>p. if p = ''updated_letters''
        then Inr (SingleFile \<lparr>cf_type = ''file'', cf_name = ''updated_letters'',
                                cf_path = ''updated_letters''\<rparr>)
        else Inl ''404'')\<rparr> ''updated_letters''
   = Inl TypeError"
  by (simp add: list_text_files_in_folder_def)

text \<open>
  Claim C10, amended: for every repository and folder path, if reading the folder raises,
  \<open>list_text_files_in_folder\<close> returns the empty list; if the read returns the entries of
  a folder, it returns exactly those entries, in their order, whose type is \<open>file\<close> and
  whose name ends with \<open>.txt\<close> ignoring case; and it propagates an error to its caller
  exactly when the read returns a single \<open>ContentFile\<close> (the path names a file), the error
  being the \<open>TypeError\<close> of the iteration.
\<close>

theorem list_text_files_in_folder_result:
  "(get_contents repo folder_path = Inl err \<longrightarrow>
      list_text_files_in_folder repo folder_path = Inr [])
   \<and> (get_contents repo folder_path = Inr (Entries entries) \<longrightarrow>
      list_text_files_in_folder repo folder_path
        = Inr (filter (\<lambda>c. cf_type c = ''file'' \<and> ends_with_ignoring_case (cf_name c) ''.txt'')
                 entries))
   \<and> (get_contents repo folder_path = Inr (SingleFile file) \<longrightarrow>
      list_text_files_in_folder repo folder_path = Inl TypeError)
   \<and> ((\<exists>e. list_text_files_in_folder repo folder_path = Inl e)
        \<longleftrightarrow> (\<exists>f. get_contents repo folder_path = Inr (SingleFile f)))"
  by (auto simp: list_text_files_in_folder_def endswith_lower [OF lower_txt]
      split: sum.splits contents.splits)

theorem list_text_files_in_folder_result_witness:
  "list_text_files_in_folder
     \<lparr>get_contents = (\<lambda>p.
        if p = ''base_templates''
        then Inr (Entries
          [\<lparr>cf_type = ''file'', cf_name = ''Thanks.TXT'', cf_path = ''base_templates/Thanks.TXT''\<rparr>,
           \<lparr>cf_type = ''dir'', cf_name = ''old.txt'', cf_path = ''base_templates/old.txt''\<rparr>,
           \<lparr>cf_type = ''file'', cf_name = ''notes.md'', cf_path = ''base_templates/notes.md''\<rparr>])
        else if p = ''README.txt''
        then Inr (SingleFile
          \<lparr>cf_type = ''file'', cf_name = ''README.txt'', cf_path = ''README.txt''\<rparr>)
        else Inl ''404'')\<rparr> ''updated_letters'' = Inr []
   \<and> list_text_files_in_folder
     \<lparr>get_contents = (\<lambda>p.
        if p = ''base_templates''
        then Inr (Entries
          [\<lparr>cf_type = ''file'', cf_name = ''Thanks.TXT'', cf_path = ''base_templates/Thanks.TXT''\<rparr>,
           \<lparr>cf_type = ''dir'', cf_name = ''old.txt'', cf_path = ''base_templates/old.txt''\<rparr>,
           \<lparr>cf_type = ''file'', cf_name = ''notes.md'', cf_path = ''base_templates/notes.md''\<rparr>])
        else if p = ''README.txt''
        then Inr (SingleFile
          \<lparr>cf_type = ''file'', cf_name = ''README.txt'', cf_path = ''README.txt''\<rparr>)
        else Inl ''404'')\<rparr> ''base_templates''
     = Inr [\<lparr>cf_type = ''file'', cf_name = ''Thanks.TXT'', cf_path = ''base_templates/Thanks.TXT''\<rparr>]
   \<and> list_text_files_in_folder
     \<lparr>get_contents = (\<lambda>p.
        if p = ''base_templates''
        then Inr (Entries
          [\<lparr>cf_type = ''file'', cf_name = ''Thanks.TXT'', cf_path = ''base_templates/Thanks.TXT''\<rparr>,
           \<lparr>cf_type = ''dir'', cf_name = ''old.txt'', cf_path = ''base_templates/old.txt''\<rparr>,
           \<lparr>cf_type = ''file'', cf_name = ''notes.md'', cf_path = ''base_templates/notes.md''\<rparr>])
        else if p = ''README.txt''
        then Inr (SingleFile
          \<lparr>cf_type = ''file'', cf_name = ''README.txt'', cf_path = ''README.txt''\<rparr>)
        else Inl ''404'')\<rparr> ''README.txt''
     = Inl TypeError"
proof -
  let ?cs = "[\<lparr>cf_type = ''file'', cf_name = ''Thanks.TXT'', cf_path = ''base_templates/Thanks.TXT''\<rparr>,
           \<lparr>cf_type = ''dir'', cf_name = ''old.txt'', cf_path = ''base_templates/old.txt''\<rparr>,
           \<lparr>cf_type = ''file'', cf_name = ''notes.md'', cf_path = ''base_templates/notes.md''\<rparr>]"
  let ?f = "\<lparr>cf_type = ''file'', cf_name = ''README.txt'', cf_path = ''README.txt''\<rparr>"
  let ?repo = "\<lparr>get_contents = (\<lambda>p.
        if p = ''base_templates'' then Inr (Entries ?cs)
        else if p = ''README.txt'' then Inr (SingleFile ?f)
        else Inl ''404'')\<rparr>"
  have e1: "ends_with_ignoring_case ''Thanks.TXT'' ''.txt''"
    by code_simp
  have e2: "\<not> ends_with_ignoring_case ''notes.md'' ''.txt''"
    by code_simp
  have "get_contents ?repo ''updated_letters'' = Inl ''404''"
    by simp
  with list_text_files_in_folder_result [of ?repo "''updated_letters''" "''404''"]
  have a: "list_text_files_in_folder ?repo ''updated_letters'' = Inr []"
    by blast
  have "get_contents ?repo ''base_templates'' = Inr (Entries ?cs)"
    by simp
  with list_text_files_in_folder_result [of ?repo "''base_templates''" _ ?cs]
  have "list_text_files_in_folder ?repo ''base_templates''
      = Inr (filter (\<lambda>c. cf_type c = ''file'' \<and> ends_with_ignoring_case (cf_name c) ''.txt'')
               ?cs)"
    by blast
  then have b: "list_text_files_in_folder ?repo ''base_templates''
      = Inr [\<lparr>cf_type = ''file'', cf_name = ''Thanks.TXT'', cf_path = ''base_templates/Thanks.TXT''\<rparr>]"
    using e1 e2 by simp
  have "get_contents ?repo ''README.txt'' = Inr (SingleFile ?f)"
    by simp
  with list_text_files_in_folder_result [of ?repo "''README.txt''" _ _ ?f]
  have c: "list_text_files_in_folder ?repo ''README.txt'' = Inl TypeError"
    by blast
  show ?thesis
    using a b c by simp
qed

end
